theory Spec2Isabelle
  imports Main "HOL-Library.AList"
begin


section \<open>Patches (romlib/patch.py)\<close>

text \<open>
  Python integers are unbounded: offsets and byte values are \<open>int\<close>.  A Python
  \<open>dict\<close> is modelled by an association list in insertion order; the assignment
  \<open>d[k] = v\<close> is \<open>AList.update k v d\<close> (an existing key keeps its place, a new key
  goes to the end), \<open>d.pop(k)\<close> is \<open>AList.delete k d\<close>, and the equality \<open>==\<close> of
  two dicts is equality of their \<open>map_of\<close>.  A dict has each key once:
  \<open>distinct (map fst d)\<close>.  A \<open>bytes\<close> or \<open>bytearray\<close> object is a list of
  integers, each in \<open>range(256)\<close>.
\<close>

type_synonym changes = "(int \<times> int) list"
type_synonym blocks = "(int \<times> int list) list"

datatype message =
    Header_mismatch_IPS
  | Header_mismatch_IPST
  | IPST_format_error int
  | RLE_value_wont_fit int int
  | Bogobyte_not_provided

datatype error =
    PatchFormatError message
  | PatchValueError message
  | ValueError
  | TypeError
  | IndexError
  | OverflowError
  | OSError
  | StopIteration
  | UnicodeEncodeError
  | UnicodeDecodeError

definition ips_header :: string where
  "ips_header = ''PATCH''"

definition ips_footer :: string where
  "ips_footer = ''EOF''"

definition ips_bogo_address :: int where
  "ips_bogo_address = 0x454f46"

definition is_byte :: "int \<Rightarrow> bool" where
  "is_byte v \<longleftrightarrow> 0 \<le> v \<and> v < 256"

text \<open>\<open>bytearray.append(v)\<close> raises \<open>ValueError\<close> unless \<open>v\<close> is in \<open>range(256)\<close>.\<close>

definition bytearray_append :: "int list \<Rightarrow> int \<Rightarrow> error + int list" where
  "bytearray_append block v = (if is_byte v then Inr (block @ [v]) else Inl ValueError)"

text \<open>
  \<open>sorted(d.items())\<close> orders the pairs by key; the keys of a dict are distinct, so
  the second components are never compared.
\<close>

definition sorted_items :: "(int \<times> 'v) list \<Rightarrow> (int \<times> 'v) list" where
  "sorted_items d = sort_key fst d"

text \<open>
  The loop of \<open>Patch._blockify\<close>, with its four variables \<open>merged\<close>, \<open>block\<close>,
  \<open>start\<close> and \<open>offset\<close>; it returns the variables the code after the loop reads.
\<close>

fun blockify_loop ::
  "blocks \<Rightarrow> int list \<Rightarrow> int option \<Rightarrow> int option \<Rightarrow> changes
     \<Rightarrow> error + (blocks \<times> int list \<times> int option)" where
  "blockify_loop merged block start offset [] = Inr (merged, block, start)"
| "blockify_loop merged block start offset ((o', v) # rest) =
     (case start of
        None \<Rightarrow>
          (case bytearray_append block v of
             Inl e \<Rightarrow> Inl e
           | Inr block' \<Rightarrow> blockify_loop merged block' (Some o') (Some o') rest)
      | Some s \<Rightarrow>
          (case offset of
             None \<Rightarrow> Inl TypeError
           | Some off \<Rightarrow>
               if o' = off + 1 then
                 (case bytearray_append block v of
                    Inl e \<Rightarrow> Inl e
                  | Inr block' \<Rightarrow> blockify_loop merged block' start (Some o') rest)
               else
                 (case bytearray_append [] v of
                    Inl e \<Rightarrow> Inl e
                  | Inr block' \<Rightarrow>
                      blockify_loop (AList.update s block merged) block' (Some o') (Some o') rest)))"

definition blockify :: "changes \<Rightarrow> error + blocks" where
  "blockify changes =
     (case blockify_loop [] [] None None (sorted_items changes) of
        Inl e \<Rightarrow> Inl e
      | Inr (merged, block, start) \<Rightarrow>
          (case start of
             None \<Rightarrow> Inr merged
           | Some s \<Rightarrow> Inr (AList.update s block merged)))"

text \<open>
  \<open>Patch.from_blocks\<close>: every byte of every block is stored at \<open>start + i\<close>.  The
  result is the \<open>changes\<close> dict of the patch it returns (\<open>Patch(changes)\<close> with no
  rom copies the dict and does nothing else).
\<close>

definition store_block :: "int \<Rightarrow> int list \<Rightarrow> changes \<Rightarrow> changes" where
  "store_block start data changes =
     fold (\<lambda>(i, d) ch. AList.update (start + int i) d ch) (enumerate 0 data) changes"

definition from_blocks :: "blocks \<Rightarrow> changes" where
  "from_blocks blocks = fold (\<lambda>(start, data) ch. store_block start data ch) blocks []"

text \<open>
  \<open>Patch.filter\<close>.  The rom is a file opened for reading; \<open>getbyte\<close> seeks and reads
  one byte.  A negative seek raises (\<open>OSError\<close> on a file), and reading at or past
  the end of the file gives \<open>b''\<close>, whose element 0 is an \<open>IndexError\<close>.  The dict
  comprehension visits the entries in order and stops at the first exception, in which
  case \<open>self.changes\<close> is not assigned.
\<close>

definition getbyte :: "int list \<Rightarrow> int \<Rightarrow> error + int" where
  "getbyte f offset =
     (if offset < 0 then Inl OSError
      else if nat offset < length f then Inr (f ! nat offset)
      else Inl IndexError)"

fun filter_changes :: "changes \<Rightarrow> int list \<Rightarrow> error + changes" where
  "filter_changes [] rom = Inr []"
| "filter_changes ((offset, v) # rest) rom =
     (case getbyte rom offset of
        Inl e \<Rightarrow> Inl e
      | Inr b \<Rightarrow>
          (case filter_changes rest rom of
             Inl e \<Rightarrow> Inl e
           | Inr kept \<Rightarrow> Inr (if v \<noteq> b then (offset, v) # kept else kept)))"


subsection \<open>Integers and byte strings\<close>

text \<open>
  \<open>x.to_bytes(n, 'big')\<close> raises \<open>OverflowError\<close> for a negative \<open>x\<close> and for one
  that needs more than \<open>n\<close> bytes; \<open>int.from_bytes(bs, 'big')\<close> reads any number of
  bytes, none of them as 0.
\<close>

definition to_bytes :: "nat \<Rightarrow> int \<Rightarrow> error + int list" where
  "to_bytes n x =
     (if 0 \<le> x \<and> x < 256 ^ n
      then Inr (map (\<lambda>i. (x div 256 ^ i) mod 256) (rev [0..<n]))
      else Inl OverflowError)"

definition from_bytes :: "int list \<Rightarrow> int" where
  "from_bytes bs = foldl (\<lambda>acc b. acc * 256 + b) 0 bs"

definition encode :: "string \<Rightarrow> int list" where
  "encode s = map (\<lambda>c. int (of_char c)) s"

subsection \<open>The reserved address\<close>

text \<open>
  \<open>Patch._ips_sanitize_changes\<close>.  \<open>blocks.pop\<close> raises \<open>KeyError\<close> when no block
  starts at the reserved address, and the handler passes.  \<open>bogobyte.to_bytes\<close> raises
  \<open>AttributeError\<close> on \<open>None\<close>, which the handler turns into \<open>PatchValueError\<close>, and
  \<open>OverflowError\<close> on an integer outside \<open>range(256)\<close>, which no handler catches.
\<close>

definition ips_sanitize_changes :: "changes \<Rightarrow> int option \<Rightarrow> error + blocks" where
  "ips_sanitize_changes changes bogobyte =
     (case blockify changes of
        Inl e \<Rightarrow> Inl e
      | Inr blocks \<Rightarrow>
          (case map_of blocks ips_bogo_address of
             None \<Rightarrow> Inr blocks
           | Some data \<Rightarrow>
               (case bogobyte of
                  None \<Rightarrow> Inl (PatchValueError Bogobyte_not_provided)
                | Some b \<Rightarrow>
                    (case to_bytes 1 b of
                       Inl e \<Rightarrow> Inl e
                     | Inr bb \<Rightarrow>
                         Inr (AList.update (ips_bogo_address - 1) (bb @ data)
                                (AList.delete ips_bogo_address blocks))))))"

subsection \<open>The binary format\<close>

text \<open>
  A writer returns the bytes it has written to the file and the exception that stopped
  it, if any.  \<open>ips_record\<close> is the body of the loop of \<open>Patch.to_ips\<close>;
  \<open>len(set(data))\<close> is the number of distinct bytes of the block.
\<close>

definition ips_record :: "int \<Rightarrow> int list \<Rightarrow> int list \<times> error option" where
  "ips_record offset data =
     (if length data > 3 \<and> length (remdups data) = 1 then
        (case to_bytes 3 offset of
           Inl e \<Rightarrow> ([], Some e)
         | Inr ob \<Rightarrow>
             (case to_bytes 2 (int (length data)) of
                Inl e \<Rightarrow> (ob @ [0, 0], Some e)
              | Inr lb \<Rightarrow> (ob @ [0, 0] @ lb @ take 1 data, None)))
      else
        (case to_bytes 3 offset of
           Inl e \<Rightarrow> ([], Some e)
         | Inr ob \<Rightarrow>
             (case to_bytes 2 (int (length data)) of
                Inl e \<Rightarrow> (ob, Some e)
              | Inr lb \<Rightarrow> (ob @ lb @ data, None))))"

fun ips_write_blocks :: "blocks \<Rightarrow> int list \<times> error option" where
  "ips_write_blocks [] = ([], None)"
| "ips_write_blocks ((offset, data) # rest) =
     (case ips_record offset data of
        (out, Some e) \<Rightarrow> (out, Some e)
      | (out, None) \<Rightarrow> (case ips_write_blocks rest of (out', r) \<Rightarrow> (out @ out', r)))"

definition to_ips :: "changes \<Rightarrow> int option \<Rightarrow> int list \<times> error option" where
  "to_ips changes bogobyte =
     (case ips_sanitize_changes changes bogobyte of
        Inl e \<Rightarrow> ([], Some e)
      | Inr blocks \<Rightarrow>
          (case ips_write_blocks (sorted_items blocks) of
             (out, Some e) \<Rightarrow> (encode ips_header @ out, Some e)
           | (out, None) \<Rightarrow> (encode ips_header @ out @ encode ips_footer, None)))"

text \<open>
  \<open>Patch.from_ips\<close> reads from a file: \<open>f.read(n)\<close> returns the next \<open>n\<close> bytes, or
  fewer at the end of the file, so \<open>f\<close> is the list of the bytes not read yet.  An RLE
  record stores \<open>value\<close> at \<open>rle_size\<close> consecutive offsets; \<open>f.read(1)[0]\<close> is an
  \<open>IndexError\<close> at the end of the file, which is also how the loop ends on a file with
  no footer.  The function returns the \<open>changes\<close> of the patch it builds.
\<close>

definition store_run :: "int \<Rightarrow> int \<Rightarrow> int \<Rightarrow> changes \<Rightarrow> changes" where
  "store_run offset rle_size v changes =
     fold (\<lambda>i ch. AList.update (offset + int i) v ch) [0..<nat rle_size] changes"

function from_ips_loop :: "changes \<Rightarrow> int list \<Rightarrow> error + changes" where
  "from_ips_loop changes f =
     (if take 3 f = encode ips_footer then Inr changes
      else if from_bytes (take 2 (drop 3 f)) > 0 then
        from_ips_loop
          (store_block (from_bytes (take 3 f))
             (take (nat (from_bytes (take 2 (drop 3 f)))) (drop 5 f)) changes)
          (drop (nat (from_bytes (take 2 (drop 3 f)))) (drop 5 f))
      else
        (case drop 7 f of
           [] \<Rightarrow> Inl IndexError
         | v # f' \<Rightarrow>
             from_ips_loop
               (store_run (from_bytes (take 3 f)) (from_bytes (take 2 (drop 5 f))) v changes)
               f'))"
  by pat_completeness auto
termination
proof (relation "measure (\<lambda>(changes, f). length f)")
  show "wf (measure (\<lambda>(changes, f). length f))" by simp
next
  fix changes :: changes and f :: "int list"
  assume "0 < from_bytes (take 2 (drop 3 f))"
  then have "take 2 (drop 3 f) \<noteq> []" by (auto simp: from_bytes_def)
  then have "3 < length f" by auto
  then show "((store_block (from_bytes (take 3 f))
                 (take (nat (from_bytes (take 2 (drop 3 f)))) (drop 5 f)) changes,
               drop (nat (from_bytes (take 2 (drop 3 f)))) (drop 5 f)), changes, f)
             \<in> measure (\<lambda>(changes, f). length f)"
    by simp
next
  fix changes :: changes and f :: "int list" and v f'
  assume "drop 7 f = v # f'"
  then have "length (drop 7 f) = Suc (length f')" by simp
  then show "((store_run (from_bytes (take 3 f)) (from_bytes (take 2 (drop 5 f))) v changes, f'),
              changes, f) \<in> measure (\<lambda>(changes, f). length f)"
    by simp
qed

declare from_ips_loop.simps [simp del]

text \<open>
  The header is compared after \<open>codecs.decode\<close>; five bytes that are not the ASCII
  bytes of \<open>PATCH\<close> never decode to it, so every other header ends the call with an
  exception, reported here as the header mismatch.
\<close>

definition from_ips :: "int list \<Rightarrow> error + changes" where
  "from_ips f =
     (if take 5 f \<noteq> encode ips_header then Inl (PatchFormatError Header_mismatch_IPS)
      else from_ips_loop [] (drop 5 f))"

subsection \<open>The text format\<close>

text \<open>
  Strings are lists of characters.  \<open>'{:0wX}'.format(x)\<close> writes \<open>x\<close> in upper-case
  hexadecimal, padded with zeros to \<open>w\<close> characters, a minus sign counting as one of
  them.
\<close>

definition hex_digit :: "nat \<Rightarrow> char" where
  "hex_digit d = ''0123456789ABCDEF'' ! d"

function hex_digits :: "nat \<Rightarrow> string" where
  "hex_digits n =
     (if n < 16 then [hex_digit n] else hex_digits (n div 16) @ [hex_digit (n mod 16)])"
  by pat_completeness auto
termination
  by (relation "measure (\<lambda>n. n)") auto

definition zfill :: "nat \<Rightarrow> string \<Rightarrow> string" where
  "zfill width s = replicate (width - length s) CHR ''0'' @ s"

definition format_X :: "nat \<Rightarrow> int \<Rightarrow> string" where
  "format_X width x =
     (if x < 0 then CHR ''-'' # zfill (width - 1) (hex_digits (nat (- x)))
      else zfill width (hex_digits (nat x)))"

text \<open>
  \<open>ipst_record\<close> is what the body of the loop of \<open>Patch.to_ipst\<close> prints for one
  block.  Each \<open>print\<close> writes one line, ended by a newline; the result of \<open>to_ipst\<close> is
  the list of the lines written.  Formatting raises no exception, so only
  \<open>_ips_sanitize_changes\<close> can stop the writer, before the first line.
\<close>

definition newline :: char where
  "newline = CHR 0x0A"

definition ipst_record :: "int \<Rightarrow> int list \<Rightarrow> string" where
  "ipst_record offset data =
     (if length data > 3 \<and> length (remdups data) = 1 then
        format_X 6 offset @ '':'' @ format_X 4 0 @ '':'' @ format_X 4 (int (length data))
          @ '':'' @ format_X 1 (hd data)
      else
        format_X 6 offset @ '':'' @ format_X 4 (int (length data)) @ '':''
          @ concat (map (format_X 2) data))"

definition to_ipst :: "changes \<Rightarrow> int option \<Rightarrow> string list \<times> error option" where
  "to_ipst changes bogobyte =
     (case ips_sanitize_changes changes bogobyte of
        Inl e \<Rightarrow> ([], Some e)
      | Inr blocks \<Rightarrow>
          ([ips_header @ [newline]]
             @ map (\<lambda>(offset, data). ipst_record offset data @ [newline]) (sorted_items blocks)
             @ [ips_footer @ [newline]],
           None))"

text \<open>
  Reading.  \<open>str.rstrip\<close> and \<open>int\<close> strip the characters for which \<open>str.isspace\<close>
  holds; among the first 256 code points these are 9 to 13, 28 to 32, 133 and 160.
\<close>

definition isspace :: "char \<Rightarrow> bool" where
  "isspace c \<longleftrightarrow>
     (let n = (of_char c :: nat)
      in (9 \<le> n \<and> n \<le> 13) \<or> (28 \<le> n \<and> n \<le> 32) \<or> n = 133 \<or> n = 160)"

definition rstrip :: "string \<Rightarrow> string" where
  "rstrip s = rev (dropWhile isspace (rev s))"

definition strip :: "string \<Rightarrow> string" where
  "strip s = dropWhile isspace (rstrip s)"

fun split_on :: "char \<Rightarrow> string \<Rightarrow> string list" where
  "split_on sep [] = [[]]"
| "split_on sep (c # cs) =
     (if c = sep then [] # split_on sep cs
      else (case split_on sep cs of
              [] \<Rightarrow> [[c]]
            | p # ps \<Rightarrow> (c # p) # ps))"

text \<open>
  \<open>int(s, base)\<close> for base 10 and 16: white space around the number, an optional sign,
  for base 16 an optional \<open>0x\<close> or \<open>0X\<close> (and one underscore after it), then digits,
  with single underscores allowed between two digits.  Anything else is a
  \<open>ValueError\<close>.
\<close>

definition digit_value :: "char \<Rightarrow> nat option" where
  "digit_value c =
     (let n = (of_char c :: nat)
      in if 48 \<le> n \<and> n \<le> 57 then Some (n - 48)
         else if 97 \<le> n \<and> n \<le> 122 then Some (n - 87)
         else if 65 \<le> n \<and> n \<le> 90 then Some (n - 55)
         else None)"

definition digit_in_base :: "nat \<Rightarrow> char \<Rightarrow> nat option" where
  "digit_in_base base c =
     (case digit_value c of
        None \<Rightarrow> None
      | Some d \<Rightarrow> if d < base then Some d else None)"

fun digits_value :: "nat \<Rightarrow> nat \<Rightarrow> string \<Rightarrow> nat option" where
  "digits_value base acc [] = Some acc"
| "digits_value base acc [c] =
     (case digit_in_base base c of
        None \<Rightarrow> None
      | Some v \<Rightarrow> Some (acc * base + v))"
| "digits_value base acc (c # d # ds) =
     (if c = CHR ''_'' then
        (case digit_in_base base d of
           None \<Rightarrow> None
         | Some v \<Rightarrow> digits_value base (acc * base + v) ds)
      else
        (case digit_in_base base c of
           None \<Rightarrow> None
         | Some v \<Rightarrow> digits_value base (acc * base + v) (d # ds)))"

definition parse_digits :: "nat \<Rightarrow> string \<Rightarrow> nat option" where
  "parse_digits base s =
     (case s of
        [] \<Rightarrow> None
      | c # cs \<Rightarrow>
          (case digit_in_base base c of
             None \<Rightarrow> None
           | Some v \<Rightarrow> digits_value base v cs))"

definition drop_base_prefix :: "nat \<Rightarrow> string \<Rightarrow> string" where
  "drop_base_prefix base s =
     (case s of
        c # x # rest \<Rightarrow>
          if base = 16 \<and> c = CHR ''0'' \<and> (x = CHR ''x'' \<or> x = CHR ''X'')
          then (case rest of u # rest' \<Rightarrow> if u = CHR ''_'' then rest' else rest | [] \<Rightarrow> rest)
          else s
      | _ \<Rightarrow> s)"

definition py_int :: "nat \<Rightarrow> string \<Rightarrow> error + int" where
  "py_int base s =
     (case strip s of
        [] \<Rightarrow> Inl ValueError
      | c # cs \<Rightarrow>
          if c = CHR ''-'' then
            (case parse_digits base (drop_base_prefix base cs) of
               None \<Rightarrow> Inl ValueError
             | Some n \<Rightarrow> Inr (- int n))
          else
            (case parse_digits base (drop_base_prefix base (if c = CHR ''+'' then cs else c # cs)) of
               None \<Rightarrow> Inl ValueError
             | Some n \<Rightarrow> Inr (int n)))"

text \<open>
  \<open>bytes.fromhex\<close>: pairs of hexadecimal digits, with ASCII white space allowed
  between the pairs.
\<close>

definition is_ascii_space :: "char \<Rightarrow> bool" where
  "is_ascii_space c \<longleftrightarrow> (let n = (of_char c :: nat) in (9 \<le> n \<and> n \<le> 13) \<or> n = 32)"

fun fromhex :: "string \<Rightarrow> error + int list" where
  "fromhex [] = Inr []"
| "fromhex [c] = (if is_ascii_space c then Inr [] else Inl ValueError)"
| "fromhex (c # d # ds) =
     (if is_ascii_space c then fromhex (d # ds)
      else
        (case digit_in_base 16 c of
           None \<Rightarrow> Inl ValueError
         | Some h \<Rightarrow>
             (case digit_in_base 16 d of
                None \<Rightarrow> Inl ValueError
              | Some l \<Rightarrow>
                  (case fromhex ds of
                     Inl e \<Rightarrow> Inl e
                   | Inr bs \<Rightarrow> Inr (int (h * 16 + l) # bs)))))"

text \<open>
  The inner loop of an RLE line of \<open>Patch.from_ipst\<close>, over \<open>range(rle_size)\<close>: the
  test of the value is inside the loop.
\<close>

fun rle_loop :: "int \<Rightarrow> int \<Rightarrow> int \<Rightarrow> nat list \<Rightarrow> changes \<Rightarrow> error + changes" where
  "rle_loop line_number offset v [] changes = Inr changes"
| "rle_loop line_number offset v (i # is) changes =
     (if v > 0xFF then Inl (PatchValueError (RLE_value_wont_fit line_number v))
      else rle_loop line_number offset v is (AList.update (offset + int i) v changes))"

text \<open>
  One line of the main loop, after \<open>rstrip\<close> and the test for the footer.  On a
  three-part line \<open>bytes.fromhex(data)\<close> is evaluated first, \<open>int(offset)\<close> (in base
  10) once for each byte, and the second part is not read; on a four-part line all
  four parts are read in base 16.
\<close>

definition ipst_line :: "int \<Rightarrow> string \<Rightarrow> changes \<Rightarrow> error + changes" where
  "ipst_line line_number line changes =
     (case split_on CHR '':'' line of
        [offset, size', data] \<Rightarrow>
          (case fromhex data of
             Inl e \<Rightarrow> Inl e
           | Inr bs \<Rightarrow>
               if bs = [] then Inr changes
               else (case py_int 10 offset of
                       Inl e \<Rightarrow> Inl e
                     | Inr off \<Rightarrow> Inr (store_block off bs changes)))
      | [p0, p1, p2, p3] \<Rightarrow>
          (case py_int 16 p0 of
             Inl e \<Rightarrow> Inl e
           | Inr offset \<Rightarrow>
               (case py_int 16 p1 of
                  Inl e \<Rightarrow> Inl e
                | Inr size' \<Rightarrow>
                    (case py_int 16 p2 of
                       Inl e \<Rightarrow> Inl e
                     | Inr rle_size \<Rightarrow>
                         (case py_int 16 p3 of
                            Inl e \<Rightarrow> Inl e
                          | Inr v \<Rightarrow>
                              rle_loop line_number offset v [0..<nat rle_size] changes))))
      | _ \<Rightarrow> Inl (PatchFormatError (IPST_format_error line_number)))"

fun from_ipst_loop :: "changes \<Rightarrow> int \<Rightarrow> string list \<Rightarrow> error + changes" where
  "from_ipst_loop changes line_number [] = Inr changes"
| "from_ipst_loop changes line_number (line # rest) =
     (if rstrip line = ips_footer then Inr changes
      else (case ipst_line line_number (rstrip line) changes of
              Inl e \<Rightarrow> Inl e
            | Inr changes' \<Rightarrow> from_ipst_loop changes' (line_number + 1) rest))"

text \<open>
  \<open>Patch.from_ipst\<close> takes the lines of the file.  The generator drops the lines that
  start with \<open>#\<close> before anything else, so the line numbers of \<open>enumerate(f, 2)\<close> count
  the lines that are left; \<open>next(f)\<close> on no line at all raises \<open>StopIteration\<close>.  A
  file that ends without a footer is accepted.
\<close>

definition is_comment :: "string \<Rightarrow> bool" where
  "is_comment line \<longleftrightarrow> (case line of [] \<Rightarrow> False | c # _ \<Rightarrow> c = CHR ''#'')"

definition from_ipst :: "string list \<Rightarrow> error + changes" where
  "from_ipst f =
     (case filter (\<lambda>line. line = [] \<or> \<not> is_comment line) f of
        [] \<Rightarrow> Inl StopIteration
      | header # rest \<Rightarrow>
          if rstrip header \<noteq> ips_header then Inl (PatchFormatError Header_mismatch_IPST)
          else from_ipst_loop [] 2 rest)"

section \<open>Tables and indexes (romlib/structures.py)\<close>

text \<open>
  An index is an \<open>Index(offset, count, stride)\<close> or a list of offsets.  \<open>len\<close> of an
  \<open>Index\<close> is its \<open>count\<close>; Python's \<open>len\<close> raises \<open>ValueError\<close> when \<open>__len__\<close>
  returns a negative number and \<open>OverflowError\<close> when it returns more than
  \<open>sys.maxsize\<close>, which is \<open>2 ^ 63 - 1\<close> on a 64-bit build.  \<open>Index.__getitem__\<close>
  refuses only \<open>i >= count\<close>; a list counts a negative \<open>i\<close> from its end and refuses
  \<open>i\<close> outside \<open>-len .. len - 1\<close>.  Slices are left out: \<open>i\<close> is an integer.
\<close>

datatype index = Index int int int | Offsets "int list"

definition sys_maxsize :: int where
  "sys_maxsize = 2 ^ 63 - 1"

definition len_index :: "index \<Rightarrow> error + int" where
  "len_index idx =
     (case idx of
        Index offset count stride \<Rightarrow>
          if count < 0 then Inl ValueError
          else if count > sys_maxsize then Inl OverflowError
          else Inr count
      | Offsets xs \<Rightarrow> Inr (int (length xs)))"

definition index_getitem :: "index \<Rightarrow> int \<Rightarrow> error + int" where
  "index_getitem idx i =
     (case idx of
        Index offset count stride \<Rightarrow>
          if i \<ge> count then Inl IndexError else Inr (offset + i * stride)
      | Offsets xs \<Rightarrow>
          if i \<ge> int (length xs) \<or> i < - int (length xs) then Inl IndexError
          else Inr (xs ! nat (if i < 0 then int (length xs) + i else i)))"

text \<open>
  A field of a structure has a size, which is an integer, the name of another field or
  \<open>None\<close>, and a unit.  \<open>Structure.size()\<close> sums \<open>field.size * field.unit\<close>; the sum
  raises \<open>TypeError\<close> when a size is \<open>None\<close> or a name.  \<open>Structure.registry\<close> maps
  the names of the defined structures to their classes, here to their fields.
\<close>

datatype size_spec = Fixed int | Named string | Unset

type_synonym struct_fields = "(size_spec \<times> int) list"

fun struct_size :: "struct_fields \<Rightarrow> error + int" where
  "struct_size [] = Inr 0"
| "struct_size ((Fixed n, unit) # fields) =
     (case struct_size fields of
        Inl e \<Rightarrow> Inl e
      | Inr rest_size \<Rightarrow> Inr (n * unit + rest_size))"
| "struct_size ((Named s, unit) # fields) = Inl TypeError"
| "struct_size ((Unset, unit) # fields) = Inl TypeError"

text \<open>
  A table: its index, its unit (\<open>Unit.bytes\<close> by default; the enumeration is in
  romlib/io.py, which is not among the sources, so the unit is an integer of the
  table), the name of the type of its elements, and the optional size of an element
  (\<open>self.size\<close>, named \<open>item_size\<close> here).
\<close>

record table =
  index :: index
  units :: int
  typename :: string
  item_size :: "int option"

definition table_len :: "table \<Rightarrow> error + int" where
  "table_len t = len_index (index t)"

text \<open>
  \<open>Table._isz_bits\<close>.  \<open>if self.size:\<close> holds for an integer other than 0; a class of
  the registry is always true.
\<close>

definition isz_bits :: "(string \<rightharpoonup> struct_fields) \<Rightarrow> table \<Rightarrow> error + int" where
  "isz_bits registry t =
     (if (case item_size t of None \<Rightarrow> False | Some s \<Rightarrow> s \<noteq> 0) then
        (case item_size t of None \<Rightarrow> Inl TypeError | Some s \<Rightarrow> Inr (s * units t))
      else
        (case registry (typename t) of
           Some fs \<Rightarrow> struct_size fs
         | None \<Rightarrow>
             (case index t of
                Index offset count stride \<Rightarrow> Inr (stride * units t)
              | Offsets xs \<Rightarrow> Inl ValueError)))"

text \<open>
  \<open>Table._subview\<close> asks the view for the slice \<open>start:end\<close>; \<open>start\<close> is computed
  before the size of an element.  The view class is in romlib/io.py, so the model
  stops at the bounds of the slice: an element is the structure or the primitive value
  that the named type reads from \<open>view[start:end]\<close>.
\<close>

definition subview :: "(string \<rightharpoonup> struct_fields) \<Rightarrow> table \<Rightarrow> int \<Rightarrow> error + int \<times> int" where
  "subview registry t i =
     (case index_getitem (index t) i of
        Inl e \<Rightarrow> Inl e
      | Inr off \<Rightarrow>
          (case isz_bits registry t of
             Inl e \<Rightarrow> Inl e
           | Inr isz \<Rightarrow> Inr (off * units t, off * units t + isz)))"

datatype element = StructAt string int int | ValueAt string int int

definition table_getitem :: "(string \<rightharpoonup> struct_fields) \<Rightarrow> table \<Rightarrow> int \<Rightarrow> error + element" where
  "table_getitem registry t i =
     (case table_len t of
        Inl e \<Rightarrow> Inl e
      | Inr n \<Rightarrow>
          if i \<ge> n then Inl IndexError
          else
            (case subview registry t i of
               Inl e \<Rightarrow> Inl e
             | Inr (start, end') \<Rightarrow>
                 (case registry (typename t) of
                    Some fs \<Rightarrow> Inr (StructAt (typename t) start end')
                  | None \<Rightarrow> Inr (ValueAt (typename t) start end'))))"

section \<open>String fields (romlib/types.py)\<close>

text \<open>
  A string field reads and writes the bytes of its view through a codec, the one named
  by \<open>display\<close> or ASCII.  A codec is a pair of functions that may fail; ASCII refuses
  characters and bytes from 128 on.
\<close>

record codec =
  encode_str :: "string \<Rightarrow> error + int list"
  decode_bytes :: "int list \<Rightarrow> error + string"

definition ascii :: codec where
  "ascii =
     \<lparr>encode_str =
        (\<lambda>s. if list_all (\<lambda>c. (of_char c :: nat) < 128) s
             then Inr (map (\<lambda>c. int (of_char c)) s) else Inl UnicodeEncodeError),
      decode_bytes =
        (\<lambda>bs. if list_all (\<lambda>b. 0 \<le> b \<and> b < 128) bs
              then Inr (map (\<lambda>b. char_of b) bs) else Inl UnicodeDecodeError)\<rparr>"

definition get_str :: "codec \<Rightarrow> int list \<Rightarrow> error + string" where
  "get_str c view_bytes = decode_bytes c view_bytes"

text \<open>
  \<open>Field._set_str\<close>.  The argument \<open>view_bytes\<close> is \<open>bitview.bytes\<close>.  The result is
  \<open>None\<close> when the method returns without writing, and otherwise the bytes that it
  assigns to \<open>bitview.bytes\<close>: a \<open>BytesIO\<close> of the old bytes, overwritten from position
  0 by the encoded value (and grown by it when the value is longer), read back whole.
  The method has no test of the length and no padding.
\<close>

definition set_str :: "codec \<Rightarrow> int list \<Rightarrow> string \<Rightarrow> error + int list option" where
  "set_str c view_bytes v =
     (case get_str c view_bytes of
        Inl e \<Rightarrow> Inl e
      | Inr current \<Rightarrow>
          if v = current then Inr None
          else
            (case encode_str c v of
               Inl e \<Rightarrow> Inl e
             | Inr data \<Rightarrow> Inr (Some (data @ drop (length data) view_bytes))))"

section \<open>Patch objects and the dicts they share\<close>








subsection \<open>Specification: runs of consecutive offsets\<close>

text \<open>
  The entries a block stands for, \<open>cells\<close>, and the blocks of a list of entries that
  continues a block already begun, \<open>runs_acc\<close>: an entry right after the block extends
  it, any other entry closes it.  \<open>store_all\<close> stores blocks in a dict one after the
  other, and \<open>run_ok K s b\<close> says that the block \<open>b\<close> is not empty, starts at \<open>s\<close> or
  later, and is maximal in the set \<open>K\<close> of offsets, except that the block starting at
  \<open>s\<close> may have a predecessor.
\<close>

definition cells :: "int \<Rightarrow> int list \<Rightarrow> changes" where
  "cells start data = map (\<lambda>(i, d). (start + int i, d)) (enumerate 0 data)"

fun runs_acc :: "int \<Rightarrow> int list \<Rightarrow> changes \<Rightarrow> blocks" where
  "runs_acc s block [] = [(s, block)]"
| "runs_acc s block ((o', v) # xs) =
     (if o' = s + int (length block) then runs_acc s (block @ [v]) xs
      else (s, block) # runs_acc o' [v] xs)"

definition store_all :: "blocks \<Rightarrow> blocks \<Rightarrow> blocks" where
  "store_all bs merged = fold (\<lambda>(k, d) m. AList.update k d m) bs merged"

definition run_ok :: "int set \<Rightarrow> int \<Rightarrow> (int \<times> int list) \<Rightarrow> bool" where
  "run_ok K s b \<longleftrightarrow> snd b \<noteq> [] \<and> s \<le> fst b
      \<and> fst b + int (length (snd b)) \<notin> K \<and> (fst b \<noteq> s \<longrightarrow> fst b - 1 \<notin> K)"

text \<open>The dict of the block-merge example: offsets 10 and 11 merge, 13 stands alone.\<close>

definition example_changes :: changes where
  "example_changes = [(10, 0xAA), (13, 0xCC), (11, 0xBB)]"

subsection \<open>Specification: filtering\<close>

text \<open>
  \<open>in_rom rom P\<close>: every offset of the patch is the position of a byte of the rom.
  \<open>no_ops_removed rom P\<close>: the patch without the entries that the rom already holds.
\<close>

definition in_rom :: "int list \<Rightarrow> changes \<Rightarrow> bool" where
  "in_rom rom P \<longleftrightarrow> (\<forall>(offset, v) \<in> set P. 0 \<le> offset \<and> offset < int (length rom))"

definition no_ops_removed :: "int list \<Rightarrow> changes \<Rightarrow> changes" where
  "no_ops_removed rom P = filter (\<lambda>(offset, v). v \<noteq> rom ! nat offset) P"

subsection \<open>Specification: the two forms of a record\<close>

text \<open>
  The record forms of the file layouts: a run-length record has the offset, a zero
  length, the run length and one value; a literal record has the offset, the length
  and the bytes.  In the binary file the offset takes three bytes and a length two,
  most significant byte first.
\<close>

definition all_identical :: "int list \<Rightarrow> bool" where
  "all_identical data \<longleftrightarrow> (\<forall>x \<in> set data. x = hd data)"

definition big_endian2 :: "int \<Rightarrow> int list" where
  "big_endian2 x = [x div 256 mod 256, x mod 256]"

definition big_endian3 :: "int \<Rightarrow> int list" where
  "big_endian3 x = [x div 65536 mod 256, x div 256 mod 256, x mod 256]"

definition rle_record :: "int \<Rightarrow> nat \<Rightarrow> int \<Rightarrow> int list" where
  "rle_record offset n v = big_endian3 offset @ [0, 0] @ big_endian2 (int n) @ [v]"

definition literal_record :: "int \<Rightarrow> int list \<Rightarrow> int list" where
  "literal_record offset data = big_endian3 offset @ big_endian2 (int (length data)) @ data"

definition rle_line :: "int \<Rightarrow> nat \<Rightarrow> int \<Rightarrow> string" where
  "rle_line offset n v =
     format_X 6 offset @ '':0000:'' @ format_X 4 (int n) @ '':'' @ format_X 1 v"

definition literal_line :: "int \<Rightarrow> int list \<Rightarrow> string" where
  "literal_line offset data =
     format_X 6 offset @ '':'' @ format_X 4 (int (length data)) @ '':''
       @ concat (map (format_X 2) data)"

definition block_record :: "int \<times> int list \<Rightarrow> int list" where
  "block_record b =
     (if length (snd b) > 3 \<and> all_identical (snd b)
      then rle_record (fst b) (length (snd b)) (hd (snd b))
      else literal_record (fst b) (snd b))"

definition block_line :: "int \<times> int list \<Rightarrow> string" where
  "block_line b =
     (if length (snd b) > 3 \<and> all_identical (snd b)
      then rle_line (fst b) (length (snd b)) (hd (snd b))
      else literal_line (fst b) (snd b))"

definition fits_record :: "int \<times> int list \<Rightarrow> bool" where
  "fits_record b \<longleftrightarrow> 0 \<le> fst b \<and> fst b < 2 ^ 24 \<and> length (snd b) < 2 ^ 16"

text \<open>
  What the binary file holds of a block that does not fit a record: nothing when the
  offset does not take three bytes; otherwise the offset, followed by the zero length of
  a run-length record when the bytes of the block are all identical.
\<close>

definition cut_record :: "int \<times> int list \<Rightarrow> int list" where
  "cut_record b =
     (if 0 \<le> fst b \<and> fst b < 2 ^ 24
      then big_endian3 (fst b) @ (if all_identical (snd b) then [0, 0] else [])
      else [])"

text \<open>A dict with a run of four equal bytes at 16 and a run of three equal bytes at 32.\<close>

definition example_runs :: changes where
  "example_runs = [(16, 7), (17, 7), (18, 7), (19, 7), (32, 1), (33, 1), (34, 1)]"

subsection \<open>Specification: elements and example tables\<close>

text \<open>
  \<open>element_at\<close> is the element read from a slice: a structure when the type of the
  elements is registered, a primitive value otherwise.  The example tables have four
  elements of stride 2 from \<open>0x100\<close>, and two elements at the offsets 10 and 20.
\<close>

definition element_at :: "(string \<rightharpoonup> struct_fields) \<Rightarrow> table \<Rightarrow> int \<Rightarrow> int \<Rightarrow> element" where
  "element_at registry t start end' =
     (case registry (typename t) of
        Some fs \<Rightarrow> StructAt (typename t) start end'
      | None \<Rightarrow> ValueAt (typename t) start end')"

definition example_table :: table where
  "example_table = \<lparr>index = Index 0x100 4 2, units = 8, typename = ''uint'', item_size = Some 3\<rparr>"

definition example_list_table :: table where
  "example_list_table = \<lparr>index = Offsets [10, 20], units = 8, typename = ''uint'', item_size = Some 1\<rparr>"


subsection \<open>Specification: what the binary format can hold\<close>

text \<open>
  \<open>ips_offsets M\<close>: every offset takes three bytes and none is the reserved address.
  \<open>no_long_run M\<close>: the dict has no 65536 consecutive offsets, so that the length of
  every block takes two bytes.
\<close>

definition ips_offsets :: "changes \<Rightarrow> bool" where
  "ips_offsets M \<longleftrightarrow> (\<forall>k \<in> fst ` set M. 0 \<le> k \<and> k < 2 ^ 24 \<and> k \<noteq> ips_bogo_address)"

definition no_long_run :: "changes \<Rightarrow> bool" where
  "no_long_run M \<longleftrightarrow> (\<forall>k. \<exists>i < 65536. k + int i \<notin> fst ` set M)"

text \<open>A dict with a block at the reserved address, between two other blocks.\<close>

definition example_sentinel :: changes where
  "example_sentinel = [(0x454f44, 3), (0x454f46, 9), (0x454f47, 8), (0x500000, 1)]"

section \<open>Properties of the patch\<close>

subsection \<open>Blocks\<close>

lemma finish_loop:
  assumes "\<forall>v \<in> snd ` set xs. is_byte v" "block \<noteq> []"
  shows "\<exists>m b s'. blockify_loop merged block (Some s) (Some (s + int (length block) - 1)) xs = Inr (m, b, Some s')
     \<and> AList.update s' b m = store_all (runs_acc s block xs) merged"
  using assms
proof (induction xs arbitrary: merged block s)
  case Nil
  then show ?case by (simp add: store_all_def)
next
  case (Cons x xs)
  obtain o' v where x: "x = (o', v)" by (cases x)
  have bv: "is_byte v" using Cons.prems x by simp
  have rest: "\<forall>v \<in> snd ` set xs. is_byte v" using Cons.prems by simp
  show ?case
  proof (cases "o' = s + int (length block)")
    case True
    from Cons.IH[OF rest, of "block @ [v]" merged s]
    show ?thesis using True x bv by (simp add: bytearray_append_def)
  next
    case False
    from Cons.IH[OF rest, of "[v]" "AList.update s block merged" o']
    show ?thesis using False x bv by (simp add: bytearray_append_def store_all_def)
  qed
qed

lemma blockify_runs:
  assumes "\<forall>v \<in> snd ` set M. is_byte v"
  shows "blockify M = Inr (case sorted_items M of [] \<Rightarrow> [] | (o', v) # xs \<Rightarrow> store_all (runs_acc o' [v] xs) [])"
proof (cases "sorted_items M")
  case Nil
  then show ?thesis by (simp add: blockify_def)
next
  case (Cons x xs)
  obtain o' v where x: "x = (o', v)" by (cases x)
  have "set (sorted_items M) = set M" by (simp add: sorted_items_def)
  then have bv: "is_byte v" and rest: "\<forall>v \<in> snd ` set xs. is_byte v"
    using assms Cons x by force+
  from finish_loop[OF rest, of "[v]" "[]" o']
  show ?thesis using Cons x bv by (auto simp: blockify_def bytearray_append_def)
qed


lemma cells_Nil: "cells s [] = []" by (simp add: cells_def)

lemma cells_snoc: "cells s (d @ [v]) = cells s d @ [(s + int (length d), v)]"
  by (simp add: cells_def enumerate_append_eq)

lemma cells_single: "cells s [v] = [(s, v)]"
  by (simp add: cells_def)

lemma keys_cells: "map fst (cells s d) = map (\<lambda>i. s + int i) [0..<length d]"
  by (induction d rule: rev_induct) (simp_all add: cells_Nil cells_snoc)

lemma set_keys_cells: "fst ` set (cells s d) = {s ..< s + int (length d)}"
proof -
  have "fst ` set (cells s d) = set (map fst (cells s d))" by simp
  also have "\<dots> = (\<lambda>i. s + int i) ` {0..<length d}" by (simp only: keys_cells set_map set_upt)
  also have "\<dots> = {s ..< s + int (length d)}"
  proof (intro set_eqI iffI)
    fix k assume "k \<in> {s ..< s + int (length d)}"
    then have "k = s + int (nat (k - s))" "nat (k - s) \<in> {0..<length d}" by auto
    then show "k \<in> (\<lambda>i. s + int i) ` {0..<length d}" by blast
  qed auto
  finally show ?thesis .
qed

lemma cells_nth: "i < length d \<Longrightarrow> cells s d ! i = (s + int i, d ! i)"
  by (simp add: cells_def nth_enumerate_eq)

lemma length_cells: "length (cells s d) = length d" by (simp add: cells_def)

lemma expand_runs_acc:
  "concat (map (\<lambda>(s, d). cells s d) (runs_acc s block xs)) = cells s block @ xs"
  by (induction xs arbitrary: s block) (auto simp: cells_snoc cells_single)

lemma store_block_cells: "store_block s d ch = fold (\<lambda>(k, v) ch. AList.update k v ch) (cells s d) ch"
  by (simp add: store_block_def cells_def fold_map comp_def case_prod_unfold)

lemma from_blocks_cells_aux:
  "fold (\<lambda>(start, data) ch. store_block start data ch) bl acc
     = fold (\<lambda>(k, v) ch. AList.update k v ch) (concat (map (\<lambda>(s, d). cells s d) bl)) acc"
  by (induction bl arbitrary: acc) (auto simp: store_block_cells)

lemma from_blocks_cells:
  "from_blocks bl = fold (\<lambda>(k, v) ch. AList.update k v ch) (concat (map (\<lambda>(s, d). cells s d) bl)) []"
  by (simp add: from_blocks_def from_blocks_cells_aux)

lemma map_of_fold_update:
  "map_of (fold (\<lambda>(k, v) ch. AList.update k v ch) xs acc) = map_of acc ++ map_of (rev xs)"
  by (induction xs arbitrary: acc) (auto simp: update_conv' map_add_upd_left)


lemma map_of_rev_distinct: "distinct (map fst xs) \<Longrightarrow> map_of (rev xs) = map_of xs"
  by (subst map_of_inject_set) (simp_all add: rev_map[symmetric])

lemma distinct_keys_sorted_items: "distinct (map fst (sorted_items M)) = distinct (map fst M)"
  by (simp add: sorted_items_def distinct_map)

lemma map_of_sorted_items: "distinct (map fst M) \<Longrightarrow> map_of (sorted_items M) = map_of M"
  by (subst map_of_inject_set) (simp_all add: distinct_keys_sorted_items, simp add: sorted_items_def)

lemma strict_sorted_items: "distinct (map fst M) \<Longrightarrow> sorted_wrt (<) (map fst (sorted_items M))"
  using distinct_keys_sorted_items[of M] by (simp add: strict_sorted_iff sorted_items_def)

lemma store_all_append:
  "distinct (map fst bs) \<Longrightarrow> fst ` set bs \<inter> fst ` set acc = {} \<Longrightarrow> store_all bs acc = acc @ bs"
proof (induction bs arbitrary: acc)
  case Nil then show ?case by (simp add: store_all_def)
next
  case (Cons b bs)
  obtain k d where b: "b = (k, d)" by (cases b)
  have upd: "AList.update k d acc = acc @ [(k, d)]" using Cons.prems(2) b
    by (induction acc) auto
  have "store_all bs (acc @ [(k, d)]) = (acc @ [(k, d)]) @ bs"
    using Cons.prems b by (intro Cons.IH) auto
  then show ?case using b upd by (simp add: store_all_def)
qed

lemma runs_acc_props:
  assumes "sorted_wrt (<) (map fst xs)" "\<forall>k \<in> fst ` set xs. s + int (length block) \<le> k" "block \<noteq> []"
  shows "sorted_wrt (<) (map fst (runs_acc s block xs))
     \<and> (\<forall>b \<in> set (runs_acc s block xs). run_ok ({s ..< s + int (length block)} \<union> fst ` set xs) s b)"
  using assms
proof (induction xs arbitrary: s block)
  case Nil
  then show ?case by (simp add: run_ok_def)
next
  case (Cons x xs)
  obtain o' v where x: "x = (o', v)" by (cases x)
  have so: "sorted_wrt (<) (map fst xs)" and gt: "\<forall>k \<in> fst ` set xs. o' < k"
    using Cons.prems(1) x by auto
  have le: "s + int (length block) \<le> o'" using Cons.prems(2) x by simp
  show ?case
  proof (cases "o' = s + int (length block)")
    case True
    have p: "\<forall>k \<in> fst ` set xs. s + int (length (block @ [v])) \<le> k" using gt True by auto
    have K: "{s ..< s + int (length (block @ [v]))} \<union> fst ` set xs
           = {s ..< s + int (length block)} \<union> fst ` set (x # xs)"
      using True x by auto
    have r: "runs_acc s block (x # xs) = runs_acc s (block @ [v]) xs" using True x by simp
    have "block @ [v] \<noteq> []" by simp
    from Cons.IH[OF so p this] show ?thesis unfolding K r .
  next
    case False
    have lt: "s + int (length block) < o'" using le False by simp
    have p: "\<forall>k \<in> fst ` set xs. o' + int (length [v]) \<le> k" using gt by auto
    have "[v] \<noteq> []" by simp
    from Cons.IH[OF so p this] have IH1: "sorted_wrt (<) (map fst (runs_acc o' [v] xs))"
      and IH2: "\<And>b. b \<in> set (runs_acc o' [v] xs) \<Longrightarrow> run_ok ({o' ..< o' + int (length [v])} \<union> fst ` set xs) o' b"
      by blast+
    have r: "runs_acc s block (x # xs) = (s, block) # runs_acc o' [v] xs" using False x by simp
    let ?K = "{s ..< s + int (length block)} \<union> fst ` set (x # xs)"
    have first: "run_ok ?K s (s, block)"
      using Cons.prems(3) lt gt x by (auto simp: run_ok_def)
    have rest: "run_ok ?K s b \<and> s < fst b" if "b \<in> set (runs_acc o' [v] xs)" for b
    proof -
      from IH2[OF that] have ok: "snd b \<noteq> []" "o' \<le> fst b"
        "fst b + int (length (snd b)) \<notin> {o'} \<union> fst ` set xs"
        "fst b \<noteq> o' \<Longrightarrow> fst b - 1 \<notin> {o'} \<union> fst ` set xs"
        by (auto simp: run_ok_def)
      have 1: "fst b + int (length (snd b)) \<notin> ?K" using ok(1,2,3) lt x by auto
      have 2: "fst b - 1 \<notin> ?K"
      proof (cases "fst b = o'")
        case True then show ?thesis using lt gt x by auto
      next
        case False then show ?thesis using ok(2,4) lt x by auto
      qed
      show ?thesis using ok(1,2) 1 2 lt by (auto simp: run_ok_def)
    qed
    have "sorted_wrt (<) (map fst ((s, block) # runs_acc o' [v] xs))"
      using IH1 rest by auto
    moreover have "\<forall>b \<in> set ((s, block) # runs_acc o' [v] xs). run_ok ?K s b"
      using first rest by auto
    ultimately show ?thesis unfolding r by blast
  qed
qed


lemma blockify_sorted_runs:
  assumes "distinct (map fst M)" "\<forall>v \<in> snd ` set M. is_byte v" "sorted_items M = (o', v) # xs"
  shows "blockify M = Inr (runs_acc o' [v] xs)"
    and "sorted_wrt (<) (map fst (runs_acc o' [v] xs))"
    and "\<forall>b \<in> set (runs_acc o' [v] xs). run_ok (fst ` set M) o' b"
proof -
  have ss: "sorted_wrt (<) (map fst ((o', v) # xs))"
    using strict_sorted_items[OF assms(1)] assms(3) by simp
  then have so: "sorted_wrt (<) (map fst xs)" and gt: "\<forall>k \<in> fst ` set xs. o' + int (length [v]) \<le> k"
    by auto
  have "[v] \<noteq> []" by simp
  from runs_acc_props[OF so gt this]
  have p1: "sorted_wrt (<) (map fst (runs_acc o' [v] xs))"
    and p2: "\<forall>b \<in> set (runs_acc o' [v] xs). run_ok ({o' ..< o' + int (length [v])} \<union> fst ` set xs) o' b"
    by blast+
  have "set M = set (sorted_items M)" by (simp add: sorted_items_def)
  then have K: "fst ` set M = {o' ..< o' + int (length [v])} \<union> fst ` set xs"
    using assms(3) by auto
  show "sorted_wrt (<) (map fst (runs_acc o' [v] xs))" by (rule p1)
  show "\<forall>b \<in> set (runs_acc o' [v] xs). run_ok (fst ` set M) o' b" using p2 K by simp
  have "distinct (map fst (runs_acc o' [v] xs))" using p1 strict_sorted_iff by blast
  then have "store_all (runs_acc o' [v] xs) [] = runs_acc o' [v] xs"
    using store_all_append[of "runs_acc o' [v] xs" "[]"] by simp
  then show "blockify M = Inr (runs_acc o' [v] xs)"
    using blockify_runs[OF assms(2)] assms(3) by simp
qed

lemma blockify_empty: "sorted_items M = [] \<Longrightarrow> blockify M = Inr []"
  by (simp add: blockify_def)

text \<open>
  The blocks of a dict of bytes: their cells, one block after the other, are the sorted
  entries of the dict, their starts increase, and every block is a maximal run.
\<close>

lemma blockify_expand:
  assumes "distinct (map fst M)" "\<forall>v \<in> snd ` set M. is_byte v"
  shows "\<exists>bl. blockify M = Inr bl \<and> concat (map (\<lambda>(s, d). cells s d) bl) = sorted_items M
      \<and> sorted_wrt (<) (map fst bl)
      \<and> (\<forall>b \<in> set bl. snd b \<noteq> [] \<and> fst b - 1 \<notin> fst ` set M \<and> fst b + int (length (snd b)) \<notin> fst ` set M)"
proof (cases "sorted_items M")
  case Nil
  then show ?thesis by (simp add: blockify_empty)
next
  case (Cons x xs)
  obtain o' v where x: "x = (o', v)" by (cases x)
  have eq: "sorted_items M = (o', v) # xs" using Cons x by simp
  note B = blockify_sorted_runs[OF assms eq]
  have ss: "sorted_wrt (<) (map fst ((o', v) # xs))"
    using strict_sorted_items[OF assms(1)] eq by simp
  have "set M = set (sorted_items M)" by (simp add: sorted_items_def)
  then have low: "\<forall>k \<in> fst ` set M. o' \<le> k" using eq ss by auto
  have "fst b - 1 \<notin> fst ` set M" if "run_ok (fst ` set M) o' b" for b
    using that low by (cases "fst b = o'") (auto simp: run_ok_def)
  then have "\<forall>b \<in> set (runs_acc o' [v] xs). snd b \<noteq> [] \<and> fst b - 1 \<notin> fst ` set M \<and> fst b + int (length (snd b)) \<notin> fst ` set M"
    using B(3) by (auto simp: run_ok_def)
  moreover have "concat (map (\<lambda>(s, d). cells s d) (runs_acc o' [v] xs)) = sorted_items M"
    by (simp add: expand_runs_acc cells_single eq)
  ultimately show ?thesis using B(1,2) by blast
qed

text \<open>
  Claim C8.  For every offset-to-byte dict \<open>M\<close>, \<open>_blockify\<close> returns blocks from which
  \<open>from_blocks\<close> rebuilds a dict equal to \<open>M\<close>.  Every block is a maximal run of
  consecutive offsets of \<open>M\<close>: it is not empty, its bytes are the values of \<open>M\<close> at
  the offsets \<open>start\<close>, \<open>start + 1\<close>, ..., and neither the offset before its start nor
  the offset after its end is a key of \<open>M\<close>.
\<close>

theorem blockify_from_blocks_roundtrip:
  assumes "distinct (map fst M)" "\<forall>v \<in> snd ` set M. is_byte v"
  shows "\<exists>bl. blockify M = Inr bl \<and> map_of (from_blocks bl) = map_of M
     \<and> (\<forall>(s, d) \<in> set bl. d \<noteq> [] \<and> s - 1 \<notin> fst ` set M \<and> s + int (length d) \<notin> fst ` set M
            \<and> (\<forall>i < length d. map_of M (s + int i) = Some (d ! i)))"
proof -
  from blockify_expand[OF assms] obtain bl where
    bl: "blockify M = Inr bl" and ex: "concat (map (\<lambda>(s, d). cells s d) bl) = sorted_items M"
    and mx: "\<forall>b \<in> set bl. snd b \<noteq> [] \<and> fst b - 1 \<notin> fst ` set M \<and> fst b + int (length (snd b)) \<notin> fst ` set M"
    by blast
  have dk: "distinct (map fst (sorted_items M))" using assms(1) by (simp add: distinct_keys_sorted_items)
  have "map_of (from_blocks bl) = map_of (rev (sorted_items M))"
    by (simp add: from_blocks_cells ex map_of_fold_update)
  also have "\<dots> = map_of M" using dk assms(1) by (simp add: map_of_rev_distinct map_of_sorted_items)
  finally have rt: "map_of (from_blocks bl) = map_of M" .
  have cell: "map_of M (s + int i) = Some (d ! i)" if "(s, d) \<in> set bl" "i < length d" for s d i
  proof -
    have "(s + int i, d ! i) \<in> set (cells s d)"
      using that(2) cells_nth[OF that(2), of s] length_cells[of s d] by (metis nth_mem)
    then have "(s + int i, d ! i) \<in> set (concat (map (\<lambda>(s, d). cells s d) bl))"
      using that(1) by auto
    then have "(s + int i, d ! i) \<in> set M" by (simp add: ex sorted_items_def)
    then show ?thesis using assms(1) by simp
  qed
  have "\<forall>(s, d) \<in> set bl. d \<noteq> [] \<and> s - 1 \<notin> fst ` set M \<and> s + int (length d) \<notin> fst ` set M
            \<and> (\<forall>i < length d. map_of M (s + int i) = Some (d ! i))"
  proof (clarify, intro conjI allI impI)
    fix s d assume m: "(s, d) \<in> set bl"
    from mx m have "snd (s, d) \<noteq> [] \<and> fst (s, d) - 1 \<notin> fst ` set M \<and> fst (s, d) + int (length (snd (s, d))) \<notin> fst ` set M"
      by blast
    then show "d \<noteq> []" "s - 1 \<notin> fst ` set M" "s + int (length d) \<notin> fst ` set M" by simp_all
    fix i assume "i < length d"
    then show "map_of M (s + int i) = Some (d ! i)" using cell m by blast
  qed
  then show ?thesis using bl rt by blast
qed


theorem blockify_from_blocks_roundtrip_witness:
  "distinct (map fst example_changes)
   \<and> (\<exists>bl. blockify example_changes = Inr bl
         \<and> map_of (from_blocks bl) = map_of example_changes
         \<and> (\<forall>(s, d) \<in> set bl. d \<noteq> []
               \<and> s - 1 \<notin> fst ` set example_changes
               \<and> s + int (length d) \<notin> fst ` set example_changes
               \<and> (\<forall>i < length d. map_of example_changes (s + int i) = Some (d ! i))))"
proof -
  have d: "distinct (map fst example_changes)" by (simp add: example_changes_def)
  have b: "\<forall>v \<in> snd ` set example_changes. is_byte v"
    by (simp add: example_changes_def is_byte_def)
  show ?thesis by (intro conjI d blockify_from_blocks_roundtrip [OF d b])
qed

lemma blockify_example:
  "blockify example_changes = Inr [(10, [0xAA, 0xBB]), (13, [0xCC])]"
  by (simp add: example_changes_def blockify_def sorted_items_def bytearray_append_def is_byte_def)

subsection \<open>Filtering\<close>

lemma getbyte_in: "0 \<le> k \<Longrightarrow> k < int (length rom) \<Longrightarrow> getbyte rom k = Inr (rom ! nat k)"
  by (simp add: getbyte_def)

lemma getbyte_out: "\<not> (0 \<le> k \<and> k < int (length rom)) \<Longrightarrow> \<exists>e. getbyte rom k = Inl e"
  by (auto simp: getbyte_def)

lemma filter_changes_in_rom:
  "in_rom rom P \<Longrightarrow> filter_changes P rom = Inr (no_ops_removed rom P)"
  by (induction P) (auto simp: in_rom_def no_ops_removed_def getbyte_in)

lemma filter_changes_not_in_rom:
  "\<not> in_rom rom P \<Longrightarrow> \<exists>e. filter_changes P rom = Inl e"
proof (induction P)
  case Nil then show ?case by (simp add: in_rom_def)
next
  case (Cons x P)
  obtain k v where x: "x = (k, v)" by (cases x)
  show ?case
  proof (cases "0 \<le> k \<and> k < int (length rom)")
    case True
    then have "\<not> in_rom rom P" using Cons.prems x by (simp add: in_rom_def)
    from Cons.IH[OF this] obtain e where "filter_changes P rom = Inl e" ..
    then show ?thesis using True x by (simp add: getbyte_in)
  next
    case False
    from getbyte_out[OF this] obtain e where "getbyte rom k = Inl e" ..
    then show ?thesis using x by simp
  qed
qed

lemma in_rom_no_ops_removed: "in_rom rom P \<Longrightarrow> in_rom rom (no_ops_removed rom P)"
  by (auto simp: in_rom_def no_ops_removed_def)

lemma no_ops_removed_idem: "no_ops_removed rom (no_ops_removed rom P) = no_ops_removed rom P"
  by (simp add: no_ops_removed_def)

text \<open>
  Claim C3, amended.  When every offset of the patch lies inside the rom, \<open>filter\<close>
  keeps exactly the entries whose value differs from the byte of the rom at their
  offset, in their order, and filtering the result again changes nothing.  When some
  offset lies outside the rom, \<open>filter\<close> raises an exception instead (and does not
  assign \<open>self.changes\<close>).
\<close>

theorem filter_removes_no_ops_idempotent:
  "(in_rom rom P \<longrightarrow>
      filter_changes P rom = Inr (no_ops_removed rom P)
      \<and> filter_changes (no_ops_removed rom P) rom = Inr (no_ops_removed rom P)
      \<and> set (no_ops_removed rom P) = {(offset, v) \<in> set P. rom ! nat offset \<noteq> v})
   \<and> (\<not> in_rom rom P \<longrightarrow> (\<exists>e. filter_changes P rom = Inl e))"
proof (intro conjI impI)
  assume r: "in_rom rom P"
  show "filter_changes P rom = Inr (no_ops_removed rom P)" by (rule filter_changes_in_rom[OF r])
  show "filter_changes (no_ops_removed rom P) rom = Inr (no_ops_removed rom P)"
    using filter_changes_in_rom[OF in_rom_no_ops_removed[OF r]] by (simp add: no_ops_removed_idem)
  show "set (no_ops_removed rom P) = {(offset, v) \<in> set P. rom ! nat offset \<noteq> v}"
    by (auto simp: no_ops_removed_def)
next
  assume "\<not> in_rom rom P"
  then show "\<exists>e. filter_changes P rom = Inl e" by (rule filter_changes_not_in_rom)
qed

theorem filter_removes_no_ops_idempotent_witness:
  "filter_changes [(0, 7), (2, 9), (1, 5)] [7, 4, 9] = Inr [(1, 5)]
   \<and> filter_changes [(1, 5)] [7, 4, 9] = Inr [(1, 5)]
   \<and> (\<exists>e. filter_changes [(0, 7), (3, 1)] [7, 4, 9] = Inl e)"
  using filter_removes_no_ops_idempotent [of "[7, 4, 9]" "[(0, 7), (2, 9), (1, 5)]"]
    filter_removes_no_ops_idempotent [of "[7, 4, 9]" "[(0, 7), (3, 1)]"]
  by (simp add: in_rom_def no_ops_removed_def)

text \<open>
  Claim C3 as stated fails for a patch that reaches past the end of the rom: the entry
  is neither kept nor removed, the call raises \<open>IndexError\<close>.
\<close>

theorem filter_past_end_counterexample:
  "filter_changes [(5, 1)] [0, 0] = Inl IndexError"
  by (simp add: getbyte_def)

subsection \<open>Blocks and records\<close>

lemma to_bytes_1: "is_byte b \<Longrightarrow> to_bytes 1 b = Inr [b]"
  by (simp add: to_bytes_def is_byte_def)

lemma blockify_starts:
  assumes "distinct (map fst M)" "\<forall>v \<in> snd ` set M. is_byte v" "blockify M = Inr bl"
    "(s, d) \<in> set bl"
  shows "s \<in> fst ` set M" "s - 1 \<notin> fst ` set M" "d \<noteq> []"
proof -
  from blockify_expand[OF assms(1,2)] assms(3) have
    ex: "concat (map (\<lambda>(s, d). cells s d) bl) = sorted_items M"
    and mx: "\<forall>b \<in> set bl. snd b \<noteq> [] \<and> fst b - 1 \<notin> fst ` set M \<and> fst b + int (length (snd b)) \<notin> fst ` set M"
    by auto
  from mx assms(4) show d: "d \<noteq> []" and "s - 1 \<notin> fst ` set M" by force+
  have "(s, hd d) \<in> set (cells s d)"
    using d cells_nth[of 0 d s] length_cells[of s d] by (metis add.right_neutral hd_conv_nth length_greater_0_conv nth_mem of_nat_0)
  then have "(s, hd d) \<in> set (concat (map (\<lambda>(s, d). cells s d) bl))" using assms(4) by auto
  then have "(s, hd d) \<in> set M" by (simp add: ex sorted_items_def)
  then show "s \<in> fst ` set M" by force
qed

lemma blockify_distinct:
  assumes "distinct (map fst M)" "\<forall>v \<in> snd ` set M. is_byte v" "blockify M = Inr bl"
  shows "distinct (map fst bl)"
  using blockify_expand[OF assms(1,2)] assms(3) strict_sorted_iff by auto

lemma to_bytes_2: "0 \<le> x \<Longrightarrow> x < 65536 \<Longrightarrow> to_bytes 2 x = Inr (big_endian2 x)"
  by (simp add: to_bytes_def big_endian2_def numeral_2_eq_2)

lemma to_bytes_3: "0 \<le> x \<Longrightarrow> x < 16777216 \<Longrightarrow> to_bytes 3 x = Inr (big_endian3 x)"
  by (simp add: to_bytes_def big_endian3_def numeral_3_eq_3)

lemma remdups_one: "length (remdups data) = 1 \<longleftrightarrow> data \<noteq> [] \<and> all_identical data"
proof
  assume "length (remdups data) = 1"
  then have "card (set data) = 1" by (simp add: length_remdups_card_conv)
  then obtain v where v: "set data = {v}" by (auto simp: card_1_singleton_iff)
  then have "data \<noteq> []" by auto
  moreover from this v have "hd data = v" using hd_in_set[of data] by auto
  ultimately show "data \<noteq> [] \<and> all_identical data" using v by (auto simp: all_identical_def)
next
  assume a: "data \<noteq> [] \<and> all_identical data"
  then have "set data = {hd data}" using hd_in_set[of data] by (auto simp: all_identical_def)
  then have "card (set data) = 1" by simp
  then show "length (remdups data) = 1" by (simp add: length_remdups_card_conv)
qed

lemma ips_record_form:
  assumes "fits_record (k, d)"
  shows "ips_record k d = (block_record (k, d), None)"
proof -
  have k: "0 \<le> k" "k < 16777216" and l: "int (length d) < 65536"
    using assms by (simp_all add: fits_record_def)
  have t1: "take 1 d = [hd d]" if "3 < length d"
    using that by (cases d) auto
  have ne: "d \<noteq> []" if "3 < length d" using that by auto
  have b3: "to_bytes 3 k = Inr (big_endian3 k)" by (rule to_bytes_3[OF k])
  have b2: "to_bytes 2 (int (length d)) = Inr (big_endian2 (int (length d)))"
    using l by (simp add: to_bytes_2)
  show ?thesis
  proof (cases "3 < length d \<and> all_identical d")
    case True
    then have c: "3 < length d \<and> length (remdups d) = 1" using ne by (simp only: remdups_one) simp
    show ?thesis
      unfolding ips_record_def block_record_def
      using True t1 c b3 b2 by (simp add: rle_record_def)
  next
    case False
    then have c: "\<not> (3 < length d \<and> length (remdups d) = 1)" by (simp only: remdups_one) simp
    show ?thesis
      unfolding ips_record_def block_record_def
      using False c b3 b2 by (auto simp: literal_record_def)
  qed
qed

lemma ipst_record_form: "ipst_record k d = block_line (k, d)"
proof -
  have ne: "d \<noteq> []" if "3 < length d" using that by auto
  have z: "format_X 4 0 = ''0000''"
    by (simp add: format_X_def zfill_def hex_digit_def numeral_3_eq_3)
  show ?thesis
  proof (cases "3 < length d \<and> all_identical d")
    case True
    then have c: "3 < length d \<and> length (remdups d) = 1" using ne by (simp only: remdups_one) simp
    show ?thesis
      unfolding ipst_record_def block_line_def
      using True c by (simp add: rle_line_def z)
  next
    case False
    then have c: "\<not> (3 < length d \<and> length (remdups d) = 1)" by (simp only: remdups_one) simp
    show ?thesis
      unfolding ipst_record_def block_line_def
      using False c by (auto simp: literal_line_def)
  qed
qed

lemma ips_write_blocks_form:
  "\<forall>b \<in> set bl. fits_record b \<Longrightarrow> ips_write_blocks bl = (concat (map block_record bl), None)"
proof (induction bl)
  case Nil then show ?case by simp
next
  case (Cons x bl)
  obtain k d where x: "x = (k, d)" by (cases x)
  have "ips_record k d = (block_record (k, d), None)" using Cons.prems x by (simp add: ips_record_form)
  then show ?case using Cons x by simp
qed

lemma replicate_numeral: "replicate (numeral k) x = x # replicate (pred_numeral k) x"
  by (simp add: numeral_eq_Suc)

lemma ips_record_cut:
  assumes "\<not> fits_record (k, d)"
  shows "ips_record k d = (cut_record (k, d), Some OverflowError)"
proof (cases "0 \<le> k \<and> k < 16777216")
  case False
  then have "to_bytes 3 k = Inl OverflowError" by (auto simp: to_bytes_def)
  then show ?thesis using False by (auto simp: ips_record_def cut_record_def)
next
  case True
  then have b3: "to_bytes 3 k = Inr (big_endian3 k)" by (simp add: to_bytes_3)
  have long: "65536 \<le> length d" using assms True by (simp add: fits_record_def)
  then have b2: "to_bytes 2 (int (length d)) = Inl OverflowError" by (simp add: to_bytes_def)
  have ne: "d \<noteq> []" and l3: "3 < length d" using long by auto
  have c: "(3 < length d \<and> length (remdups d) = 1) = all_identical d"
    using ne l3 remdups_one[of d] by simp
  show ?thesis
    unfolding ips_record_def c using True b3 b2 by (simp add: cut_record_def)
qed

lemma ips_write_blocks_cut:
  assumes "\<forall>x \<in> set pre. fits_record x" "\<not> fits_record b"
  shows "ips_write_blocks (pre @ b # post)
           = (concat (map block_record pre) @ cut_record b, Some OverflowError)"
  using assms(1)
proof (induction pre)
  case Nil
  obtain k d where b: "b = (k, d)" by (cases b)
  show ?case using ips_record_cut[of k d] assms(2) b by simp
next
  case (Cons x pre)
  obtain k d where x: "x = (k, d)" by (cases x)
  have "ips_record k d = (block_record (k, d), None)" using Cons.prems x by (simp add: ips_record_form)
  then show ?case using Cons x by simp
qed

lemma first_unfit:
  assumes "\<exists>b \<in> set bl. \<not> fits_record b"
  shows "\<exists>pre b post. bl = pre @ b # post \<and> (\<forall>x \<in> set pre. fits_record x) \<and> \<not> fits_record b"
proof -
  from assms obtain pre b post where s: "bl = pre @ b # post" "\<not> fits_record b"
    "\<forall>x \<in> set pre. \<not> \<not> fits_record x"
    using split_list_first_prop[of bl "\<lambda>b. \<not> fits_record b"] by blast
  then have "bl = pre @ b # post \<and> (\<forall>x \<in> set pre. fits_record x) \<and> \<not> fits_record b"
    by simp
  then show ?thesis by (intro exI)
qed

lemma to_ips_whole:
  assumes "ips_sanitize_changes M bogobyte = Inr blocks" "\<forall>b \<in> set blocks. fits_record b"
  shows "to_ips M bogobyte =
     (encode ips_header @ concat (map block_record (sorted_items blocks)) @ encode ips_footer, None)"
proof -
  have "\<forall>b \<in> set (sorted_items blocks). fits_record b" using assms(2) by (simp add: sorted_items_def)
  from ips_write_blocks_form[OF this] show ?thesis using assms(1) by (simp add: to_ips_def)
qed

lemma to_ips_cut:
  assumes "ips_sanitize_changes M bogobyte = Inr blocks"
    "sorted_items blocks = pre @ b # post" "\<forall>x \<in> set pre. fits_record x" "\<not> fits_record b"
  shows "to_ips M bogobyte =
     (encode ips_header @ concat (map block_record pre) @ cut_record b, Some OverflowError)"
  using ips_write_blocks_cut[OF assms(3,4), of post] assms(1,2) by (simp add: to_ips_def)

lemma to_ips_overflow:
  assumes "ips_sanitize_changes M bogobyte = Inr blocks" "\<exists>b \<in> set blocks. \<not> fits_record b"
  shows "\<exists>out. to_ips M bogobyte = (out, Some OverflowError)"
proof -
  have "\<exists>b \<in> set (sorted_items blocks). \<not> fits_record b" using assms(2) by (simp add: sorted_items_def)
  from first_unfit[OF this] obtain pre b post where
    "sorted_items blocks = pre @ b # post" "\<forall>x \<in> set pre. fits_record x" "\<not> fits_record b" by blast
  from to_ips_cut[OF assms(1) this] show ?thesis by blast
qed

lemma to_ipst_whole:
  assumes "ips_sanitize_changes M bogobyte = Inr blocks"
  shows "to_ipst M bogobyte =
           ([ips_header @ [newline]] @ map (\<lambda>b. block_line b @ [newline]) (sorted_items blocks)
              @ [ips_footer @ [newline]], None)"
proof -
  have "(\<lambda>(offset, data). ipst_record offset data @ [newline]) = (\<lambda>b. block_line b @ [newline])"
    by (auto simp: ipst_record_form)
  then show ?thesis using assms by (simp add: to_ipst_def)
qed

lemma cells_Cons: "cells s (v # d) = (s, v) # cells (s + 1) d"
  by (simp add: cells_def enumerate_Suc_eq comp_def case_prod_unfold add.assoc)

lemma runs_acc_cells: "runs_acc s block (cells (s + int (length block)) d) = [(s, block @ d)]"
proof (induction d arbitrary: block)
  case Nil then show ?case by (simp add: cells_Nil)
next
  case (Cons v d)
  have e: "s + int (length block) + 1 = s + int (length (block @ [v]))" by simp
  have "runs_acc s block (cells (s + int (length block)) (v # d))
          = runs_acc s (block @ [v]) (cells (s + int (length block) + 1) d)"
    by (simp add: cells_Cons)
  also have "\<dots> = [(s, (block @ [v]) @ d)]" unfolding e by (rule Cons)
  finally show ?case by simp
qed

lemma values_cells: "map snd (cells s d) = d"
  by (induction d arbitrary: s) (simp_all add: cells_Nil cells_Cons)

lemma sorted_keys_cells: "sorted (map fst (cells s d))"
proof (induction d arbitrary: s)
  case Nil then show ?case by (simp add: cells_Nil)
next
  case (Cons v d)
  have "\<forall>k \<in> fst ` set (cells (s + 1) d). s \<le> k" by (simp add: set_keys_cells)
  then show ?case using Cons[of "s + 1"] by (simp add: cells_Cons)
qed

lemma sorted_items_cells: "sorted_items (cells s d) = cells s d"
  unfolding sorted_items_def by (rule sort_key_id_if_sorted[OF sorted_keys_cells])

lemma blockify_single:
  assumes "d \<noteq> []" "\<forall>v \<in> set d. is_byte v"
  shows "blockify (cells s d) = Inr [(s, d)]"
proof -
  obtain v d' where d: "d = v # d'" using assms(1) by (cases d) auto
  have "snd ` set (cells s d) = set d" using values_cells[of s d] by (metis set_map)
  then have b: "\<forall>v \<in> snd ` set (cells s d). is_byte v" using assms(2) by simp
  have r: "runs_acc s [v] (cells (s + 1) d') = [(s, v # d')]"
    using runs_acc_cells[of s "[v]" d'] by simp
  have si: "sorted_items (cells s d) = (s, v) # cells (s + 1) d'"
    using sorted_items_cells[of s d] by (simp only: d cells_Cons)
  show ?thesis
    using blockify_runs[OF b] unfolding si by (simp add: r store_all_def d)
qed

lemma key_sorted_unique:
  fixes xs ys :: "(int \<times> 'v) list"
  assumes "sorted_wrt (<) (map fst xs)" "sorted_wrt (<) (map fst ys)" "set xs = set ys"
  shows "xs = ys"
  using assms
proof (induction xs arbitrary: ys)
  case Nil then show ?case by simp
next
  case (Cons x xs)
  then obtain y ys' where ys: "ys = y # ys'" by (cases ys) auto
  have xs_gt: "\<forall>z \<in> set xs. fst x < fst z" using Cons.prems(1) by auto
  have ys_gt: "\<forall>z \<in> set ys'. fst y < fst z" using Cons.prems(2) ys by auto
  have "x \<in> set (y # ys')" using Cons.prems(3) ys by auto
  then have le1: "fst y \<le> fst x" using ys_gt by auto
  have "y \<in> set (x # xs)" using Cons.prems(3) ys by auto
  then have le2: "fst x \<le> fst y" using xs_gt by auto
  have xy: "x = y"
  proof (rule ccontr)
    assume "x \<noteq> y"
    then have "x \<in> set ys'" using \<open>x \<in> set (y # ys')\<close> by simp
    then show False using ys_gt le1 le2 by auto
  qed
  have "x \<notin> set xs" using xs_gt by auto
  moreover have "y \<notin> set ys'" using ys_gt by auto
  ultimately have "set xs = set ys'" using Cons.prems(3) ys xy by auto
  moreover have "sorted_wrt (<) (map fst xs)" "sorted_wrt (<) (map fst ys')"
    using Cons.prems(1,2) ys by auto
  ultimately have "xs = ys'" using Cons.IH by blast
  then show ?case using xy ys by simp
qed

lemma sorted_items_unique:
  fixes xs ys :: "(int \<times> 'v) list"
  assumes "distinct (map fst xs)" "sorted_wrt (<) (map fst ys)" "set ys = set xs"
  shows "sorted_items xs = ys"
proof -
  have "sorted (map fst (sorted_items xs))" by (simp add: sorted_items_def)
  moreover have "distinct (map fst (sorted_items xs))"
    using assms(1) by (simp add: sorted_items_def distinct_map)
  ultimately have s: "sorted_wrt (<) (map fst (sorted_items xs))" by (simp add: strict_sorted_iff)
  have e: "set (sorted_items xs) = set ys" using assms(3) by (simp add: sorted_items_def)
  show ?thesis by (rule key_sorted_unique[OF s assms(2) e])
qed

lemma update_new_key: "k \<notin> fst ` set al \<Longrightarrow> AList.update k v al = al @ [(k, v)]"
  by (induction al) auto

lemma delete_middle:
  assumes "distinct (map fst (pre @ (k, d) # post))"
  shows "AList.delete k (pre @ (k, d) # post) = pre @ post"
proof -
  have "\<forall>p \<in> set pre. fst p \<noteq> k" "\<forall>p \<in> set post. fst p \<noteq> k" using assms by auto
  then have "filter (\<lambda>(k', _). k \<noteq> k') pre = pre" "filter (\<lambda>(k', _). k \<noteq> k') post = post"
    by (auto simp: filter_id_conv)
  then show ?thesis by (simp add: AList.delete_eq)
qed

subsection \<open>Run-length and literal records\<close>

text \<open>
  Claim C4, amended.  Both writers emit the blocks in the order of their offsets.  The
  text writer prints, for every block, the run-length line when the block has more than
  three bytes and they are all identical, and the literal line otherwise.  The binary
  writer does the same with the run-length record and the literal record as long as the
  blocks fit a record, that is, their offset takes three bytes and their length two.
  When every block fits, the file is the header, the records and the footer.  At the
  first block that does not fit the writer stops with \<open>OverflowError\<close>: the file then
  holds the header, the records of the blocks before that one and the part of its record
  written so far, and neither the later blocks nor the footer.
\<close>

theorem rle_threshold:
  assumes "ips_sanitize_changes M bogobyte = Inr blocks"
  shows "((\<forall>b \<in> set blocks. fits_record b) \<longrightarrow>
           to_ips M bogobyte =
             (encode ips_header @ concat (map block_record (sorted_items blocks)) @ encode ips_footer,
              None))
       \<and> (\<forall>pre b post.
             sorted_items blocks = pre @ b # post \<and> (\<forall>x \<in> set pre. fits_record x)
             \<and> \<not> fits_record b \<longrightarrow>
             to_ips M bogobyte =
               (encode ips_header @ concat (map block_record pre) @ cut_record b,
                Some OverflowError))
       \<and> ((\<exists>b \<in> set blocks. \<not> fits_record b) \<longrightarrow>
             (\<exists>out. to_ips M bogobyte = (out, Some OverflowError)))
       \<and> to_ipst M bogobyte =
           ([ips_header @ [newline]] @ map (\<lambda>b. block_line b @ [newline]) (sorted_items blocks)
              @ [ips_footer @ [newline]], None)"
proof (intro conjI allI impI)
  assume "\<forall>b \<in> set blocks. fits_record b"
  then show "to_ips M bogobyte =
             (encode ips_header @ concat (map block_record (sorted_items blocks)) @ encode ips_footer,
              None)"
    by (rule to_ips_whole[OF assms])
next
  fix pre b post
  assume "sorted_items blocks = pre @ b # post \<and> (\<forall>x \<in> set pre. fits_record x)
             \<and> \<not> fits_record b"
  then show "to_ips M bogobyte =
               (encode ips_header @ concat (map block_record pre) @ cut_record b,
                Some OverflowError)"
    using to_ips_cut[OF assms] by blast
next
  assume "\<exists>b \<in> set blocks. \<not> fits_record b"
  then show "\<exists>out. to_ips M bogobyte = (out, Some OverflowError)"
    by (rule to_ips_overflow[OF assms])
next
  show "to_ipst M bogobyte =
           ([ips_header @ [newline]] @ map (\<lambda>b. block_line b @ [newline]) (sorted_items blocks)
              @ [ips_footer @ [newline]], None)"
    by (rule to_ipst_whole[OF assms])
qed

lemma example_runs_blocks:
  "ips_sanitize_changes example_runs None = Inr [(16, [7, 7, 7, 7]), (32, [1, 1, 1])]"
  by (simp add: ips_sanitize_changes_def blockify_def sorted_items_def example_runs_def
      bytearray_append_def is_byte_def ips_bogo_address_def)

lemma example_unfit_blocks:
  "ips_sanitize_changes [(16, 7), (17, 7), (18, 7), (19, 7), (0x1000000, 1), (32, 1)] None
     = Inr [(16, [7, 7, 7, 7]), (32, [1]), (0x1000000, [1])]"
  by (simp add: ips_sanitize_changes_def blockify_def sorted_items_def
      bytearray_append_def is_byte_def ips_bogo_address_def)

theorem rle_threshold_witness:
  "to_ips example_runs None =
     (encode ''PATCH'' @ [0, 0, 16, 0, 0, 0, 4, 7] @ [0, 0, 32, 0, 3, 1, 1, 1] @ encode ''EOF'', None)
   \<and> to_ipst example_runs None =
     ([''PATCH'' @ [newline], ''000010:0000:0004:7'' @ [newline],
       ''000020:0003:010101'' @ [newline], ''EOF'' @ [newline]], None)
   \<and> to_ips [(16, 7), (17, 7), (18, 7), (19, 7), (0x1000000, 1), (32, 1)] None =
     (encode ''PATCH'' @ [0, 0, 16, 0, 0, 0, 4, 7] @ [0, 0, 32, 0, 1, 1], Some OverflowError)"
proof -
  have a: "to_ips example_runs None =
     (encode ''PATCH'' @ [0, 0, 16, 0, 0, 0, 4, 7] @ [0, 0, 32, 0, 3, 1, 1, 1] @ encode ''EOF'', None)
   \<and> to_ipst example_runs None =
     ([''PATCH'' @ [newline], ''000010:0000:0004:7'' @ [newline],
       ''000020:0003:010101'' @ [newline], ''EOF'' @ [newline]], None)"
    using rle_threshold [OF example_runs_blocks]
    by (simp add: fits_record_def block_record_def block_line_def all_identical_def
      rle_record_def literal_record_def rle_line_def literal_line_def big_endian2_def
      big_endian3_def sorted_items_def ips_header_def ips_footer_def format_X_def zfill_def
      hex_digit_def replicate_numeral)
  have s: "sorted_items [(16 :: int, [7, 7, 7, 7 :: int]), (32, [1]), (0x1000000, [1])]
             = [(16, [7, 7, 7, 7]), (32, [1])] @ (0x1000000, [1]) # []"
    by (simp add: sorted_items_def)
  have f: "\<forall>x \<in> set [(16 :: int, [7, 7, 7, 7 :: int]), (32, [1])]. fits_record x"
    by (simp add: fits_record_def)
  have u: "\<not> fits_record (0x1000000, [1])" by (simp add: fits_record_def)
  from rle_threshold [OF example_unfit_blocks]
  have "\<forall>pre b post.
          sorted_items [(16, [7, 7, 7, 7]), (32, [1]), (0x1000000, [1])] = pre @ b # post
          \<and> (\<forall>x \<in> set pre. fits_record x) \<and> \<not> fits_record b \<longrightarrow>
          to_ips [(16, 7), (17, 7), (18, 7), (19, 7), (0x1000000, 1), (32, 1)] None =
            (encode ips_header @ concat (map block_record pre) @ cut_record b, Some OverflowError)"
    by blast
  then have "to_ips [(16, 7), (17, 7), (18, 7), (19, 7), (0x1000000, 1), (32, 1)] None =
      (encode ips_header @ concat (map block_record [(16, [7, 7, 7, 7]), (32, [1])])
         @ cut_record (0x1000000, [1]), Some OverflowError)"
    using s f u by blast
  then have b: "to_ips [(16, 7), (17, 7), (18, 7), (19, 7), (0x1000000, 1), (32, 1)] None =
     (encode ''PATCH'' @ [0, 0, 16, 0, 0, 0, 4, 7] @ [0, 0, 32, 0, 1, 1], Some OverflowError)"
    by (simp add: block_record_def all_identical_def rle_record_def literal_record_def
        big_endian2_def big_endian3_def cut_record_def ips_header_def)
  show ?thesis using a b by simp
qed

text \<open>
  Claim C4 as stated fails in the binary writer for a dict of 65536 identical bytes at
  consecutive offsets: they are one block, whose length does not fit two bytes, and the
  writer stops with \<open>OverflowError\<close> inside its record.
\<close>

theorem rle_threshold_counterexample:
  "blockify (cells 0 (replicate 65536 0)) = Inr [(0, replicate 65536 0)]
   \<and> length (replicate 65536 (0 :: int)) > 3 \<and> all_identical (replicate 65536 0)
   \<and> to_ips (cells 0 (replicate 65536 0)) None
       = (encode ''PATCH'' @ [0, 0, 0, 0, 0], Some OverflowError)"
proof -
  have ne: "replicate 65536 (0 :: int) \<noteq> []" by simp
  have bs: "\<forall>v \<in> set (replicate 65536 (0 :: int)). is_byte v" by (simp add: is_byte_def)
  have bl: "blockify (cells 0 (replicate 65536 0)) = Inr [(0, replicate 65536 0)]"
    by (rule blockify_single[OF ne bs])
  have san: "ips_sanitize_changes (cells 0 (replicate 65536 0)) None = Inr [(0, replicate 65536 0)]"
    using bl by (simp add: ips_sanitize_changes_def ips_bogo_address_def)
  have a: "all_identical (replicate 65536 0)" by (simp add: all_identical_def)
  have u: "\<not> fits_record (0, replicate 65536 0)" by (simp add: fits_record_def)
  have s: "sorted_items [(0 :: int, replicate 65536 (0 :: int))] = [] @ (0, replicate 65536 0) # []"
    by (simp add: sorted_items_def)
  have "to_ips (cells 0 (replicate 65536 0)) None
       = (encode ips_header @ concat (map block_record []) @ cut_record (0, replicate 65536 0),
          Some OverflowError)"
    by (rule to_ips_cut[OF san s _ u]) simp
  then have "to_ips (cells 0 (replicate 65536 0)) None
       = (encode ''PATCH'' @ [0, 0, 0, 0, 0], Some OverflowError)"
    using a by (simp add: cut_record_def big_endian3_def ips_header_def)
  then show ?thesis using bl a by simp
qed

subsection \<open>The reserved address\<close>

lemma moved_block:
  assumes d: "distinct (map fst M)" and by': "\<forall>v \<in> snd ` set M. is_byte v"
    and bl: "blockify M = Inr blocks"
    and m: "map_of blocks ips_bogo_address = Some data"
  shows "\<exists>pre post. blocks = pre @ (ips_bogo_address, data) # post
      \<and> ips_bogo_address - 1 \<notin> fst ` set blocks
      \<and> AList.update (ips_bogo_address - 1) v (AList.delete ips_bogo_address blocks)
            = pre @ post @ [(ips_bogo_address - 1, v)]
      \<and> sorted_items (pre @ post @ [(ips_bogo_address - 1, v)])
            = pre @ (ips_bogo_address - 1, v) # post"
proof -
  have mem: "(ips_bogo_address, data) \<in> set blocks" using m by (rule map_of_SomeD)
  then obtain pre post where sp: "blocks = pre @ (ips_bogo_address, data) # post"
    by (meson split_list)
  from blockify_expand[OF d by'] bl have ss: "sorted_wrt (<) (map fst blocks)" by auto
  then have dist: "distinct (map fst blocks)" using strict_sorted_iff by blast
  have nokey: "ips_bogo_address - 1 \<notin> fst ` set M"
    using blockify_starts(2)[OF d by' bl mem] .
  have nb: "ips_bogo_address - 1 \<notin> fst ` set blocks"
  proof
    assume "ips_bogo_address - 1 \<in> fst ` set blocks"
    then obtain d' where "(ips_bogo_address - 1, d') \<in> set blocks" by auto
    from blockify_starts(1)[OF d by' bl this] nokey show False by simp
  qed
  have del: "AList.delete ips_bogo_address blocks = pre @ post"
    using dist unfolding sp by (rule delete_middle)
  have "ips_bogo_address - 1 \<notin> fst ` set (pre @ post)" using nb sp by auto
  then have upd: "AList.update (ips_bogo_address - 1) v (AList.delete ips_bogo_address blocks)
            = pre @ post @ [(ips_bogo_address - 1, v)]"
    unfolding del using update_new_key[of "ips_bogo_address - 1" "pre @ post" v] by simp
  have lo: "\<forall>p \<in> set pre. fst p < ips_bogo_address - 1"
  proof
    fix p assume p: "p \<in> set pre"
    have a: "fst p < ips_bogo_address" using p ss sp by (auto simp: sorted_wrt_append)
    have "fst p \<in> fst ` set blocks" using sp p by force
    then have c: "fst p \<noteq> ips_bogo_address - 1" using nb by metis
    show "fst p < ips_bogo_address - 1" using a c by simp
  qed
  have hi: "\<forall>p \<in> set post. ips_bogo_address - 1 < fst p"
    using ss sp by (auto simp: sorted_wrt_append)
  have "sorted_wrt (<) (map fst pre)" "sorted_wrt (<) (map fst post)"
    "\<forall>p \<in> set pre. \<forall>q \<in> set post. fst p < fst q"
    using ss sp by (auto simp: sorted_wrt_append)
  then have st: "sorted_wrt (<) (map fst (pre @ (ips_bogo_address - 1, v) # post))"
    using lo hi by (auto simp: sorted_wrt_append)
  have dn: "distinct (map fst (pre @ post @ [(ips_bogo_address - 1, v)]))"
  proof -
    have "distinct (map fst (pre @ (ips_bogo_address - 1, v) # post))"
      using st strict_sorted_iff by blast
    then show ?thesis by auto
  qed
  have "sorted_items (pre @ post @ [(ips_bogo_address - 1, v)])
            = pre @ (ips_bogo_address - 1, v) # post"
    by (rule sorted_items_unique[OF dn st]) auto
  then show ?thesis using sp nb upd by blast
qed

lemma fits_moved:
  assumes "blocks = pre @ (ips_bogo_address, data) # post"
  shows "(\<forall>x \<in> set (pre @ post @ [(ips_bogo_address - 1, b # data)]). fits_record x)
          \<longleftrightarrow> (\<forall>x \<in> set blocks. fits_record x) \<and> length data < 65535"
  unfolding assms by (auto simp: fits_record_def ips_bogo_address_def)

text \<open>
  Claim C2, amended.  Let \<open>blocks\<close> be the blocks of a dict of bytes, and let the block
  \<open>data\<close> start at the reserved address \<open>0x454F46\<close>, between the blocks \<open>pre\<close> and
  \<open>post\<close>.  No block starts at \<open>0x454F45\<close>.  With a bogo byte \<open>b\<close> in \<open>range(256)\<close>
  the blocks handed to both writers are \<open>pre\<close>, \<open>post\<close> and the block \<open>b\<close> followed by
  \<open>data\<close> at \<open>0x454F45\<close>.  The text file is the header, the lines of \<open>pre\<close>, the line
  of the new block, the lines of \<open>post\<close> and the footer.  The binary file is the same
  with records, when every block fits a record and \<open>data\<close> has fewer than 65535 bytes;
  otherwise the binary writer stops with \<open>OverflowError\<close>.  A bogo byte outside
  \<open>range(256)\<close> is an \<open>OverflowError\<close>.  With no bogo byte both writers fail with
  \<open>PatchValueError\<close> before they write anything.  When no block starts at the reserved
  address the blocks are left as they are.
\<close>

theorem sentinel_block_moved_or_refused:
  assumes "distinct (map fst M)" and "\<forall>v \<in> snd ` set M. is_byte v"
    and "blockify M = Inr blocks"
  shows "(map_of blocks ips_bogo_address = Some data \<longrightarrow>
           (\<exists>pre post. blocks = pre @ (ips_bogo_address, data) # post
              \<and> ips_bogo_address - 1 \<notin> fst ` set blocks
              \<and> (is_byte b \<longrightarrow>
                    ips_sanitize_changes M (Some b)
                      = Inr (pre @ post @ [(ips_bogo_address - 1, b # data)])
                    \<and> to_ipst M (Some b) =
                        ([ips_header @ [newline]]
                           @ map (\<lambda>x. block_line x @ [newline])
                               (pre @ (ips_bogo_address - 1, b # data) # post)
                           @ [ips_footer @ [newline]], None)
                    \<and> ((\<forall>x \<in> set blocks. fits_record x) \<and> length data < 65535 \<longrightarrow>
                          to_ips M (Some b) =
                            (encode ips_header
                               @ concat (map block_record
                                   (pre @ (ips_bogo_address - 1, b # data) # post))
                               @ encode ips_footer, None))
                    \<and> (\<not> ((\<forall>x \<in> set blocks. fits_record x) \<and> length data < 65535) \<longrightarrow>
                          (\<exists>out. to_ips M (Some b) = (out, Some OverflowError))))
              \<and> (\<not> is_byte b \<longrightarrow> ips_sanitize_changes M (Some b) = Inl OverflowError)
              \<and> ips_sanitize_changes M None = Inl (PatchValueError Bogobyte_not_provided)
              \<and> to_ips M None = ([], Some (PatchValueError Bogobyte_not_provided))
              \<and> to_ipst M None = ([], Some (PatchValueError Bogobyte_not_provided))))
       \<and> (map_of blocks ips_bogo_address = None \<longrightarrow>
             ips_sanitize_changes M bogobyte = Inr blocks)"
proof (intro conjI impI)
  assume n: "map_of blocks ips_bogo_address = None"
  show "ips_sanitize_changes M bogobyte = Inr blocks"
    using assms(3) n by (simp add: ips_sanitize_changes_def)
next
  assume s: "map_of blocks ips_bogo_address = Some data"
  from moved_block[OF assms s, of "b # data"] obtain pre post where
    sp: "blocks = pre @ (ips_bogo_address, data) # post"
    and nb: "ips_bogo_address - 1 \<notin> fst ` set blocks"
    and upd: "AList.update (ips_bogo_address - 1) (b # data) (AList.delete ips_bogo_address blocks)
            = pre @ post @ [(ips_bogo_address - 1, b # data)]"
    and srt: "sorted_items (pre @ post @ [(ips_bogo_address - 1, b # data)])
            = pre @ (ips_bogo_address - 1, b # data) # post"
    by blast
  let ?new = "pre @ post @ [(ips_bogo_address - 1, b # data)]"
  have e: "ips_sanitize_changes M None = Inl (PatchValueError Bogobyte_not_provided)"
    using assms(3) s by (simp add: ips_sanitize_changes_def)
  have nby: "ips_sanitize_changes M (Some b) = Inl OverflowError" if "\<not> is_byte b"
    using assms(3) s that by (auto simp: ips_sanitize_changes_def to_bytes_def is_byte_def)
  have yes: "ips_sanitize_changes M (Some b) = Inr ?new
       \<and> to_ipst M (Some b) =
                        ([ips_header @ [newline]]
                           @ map (\<lambda>x. block_line x @ [newline])
                               (pre @ (ips_bogo_address - 1, b # data) # post)
                           @ [ips_footer @ [newline]], None)
       \<and> ((\<forall>x \<in> set blocks. fits_record x) \<and> length data < 65535 \<longrightarrow>
                          to_ips M (Some b) =
                            (encode ips_header
                               @ concat (map block_record
                                   (pre @ (ips_bogo_address - 1, b # data) # post))
                               @ encode ips_footer, None))
       \<and> (\<not> ((\<forall>x \<in> set blocks. fits_record x) \<and> length data < 65535) \<longrightarrow>
                          (\<exists>out. to_ips M (Some b) = (out, Some OverflowError)))"
    if b: "is_byte b"
  proof -
    have san: "ips_sanitize_changes M (Some b) = Inr ?new"
      using assms(3) s to_bytes_1[OF b] upd by (simp add: ips_sanitize_changes_def del: One_nat_def)
    have t: "to_ipst M (Some b) =
                        ([ips_header @ [newline]]
                           @ map (\<lambda>x. block_line x @ [newline])
                               (pre @ (ips_bogo_address - 1, b # data) # post)
                           @ [ips_footer @ [newline]], None)"
      using to_ipst_whole[OF san] by (simp only: srt)
    have w: "to_ips M (Some b) =
                            (encode ips_header
                               @ concat (map block_record
                                   (pre @ (ips_bogo_address - 1, b # data) # post))
                               @ encode ips_footer, None)"
      if "(\<forall>x \<in> set blocks. fits_record x) \<and> length data < 65535"
    proof -
      have "\<forall>x \<in> set ?new. fits_record x" using that fits_moved[OF sp, of b] by blast
      from to_ips_whole[OF san this] show ?thesis by (simp only: srt)
    qed
    have o: "\<exists>out. to_ips M (Some b) = (out, Some OverflowError)"
      if "\<not> ((\<forall>x \<in> set blocks. fits_record x) \<and> length data < 65535)"
    proof -
      have "\<exists>x \<in> set ?new. \<not> fits_record x" using that fits_moved[OF sp, of b] by blast
      then show ?thesis by (rule to_ips_overflow[OF san])
    qed
    show ?thesis using san t w o by blast
  qed
  have no: "to_ips M None = ([], Some (PatchValueError Bogobyte_not_provided))"
    "to_ipst M None = ([], Some (PatchValueError Bogobyte_not_provided))"
    using e by (simp_all add: to_ips_def to_ipst_def)
  show "\<exists>pre post. blocks = pre @ (ips_bogo_address, data) # post
              \<and> ips_bogo_address - 1 \<notin> fst ` set blocks
              \<and> (is_byte b \<longrightarrow>
                    ips_sanitize_changes M (Some b)
                      = Inr (pre @ post @ [(ips_bogo_address - 1, b # data)])
                    \<and> to_ipst M (Some b) =
                        ([ips_header @ [newline]]
                           @ map (\<lambda>x. block_line x @ [newline])
                               (pre @ (ips_bogo_address - 1, b # data) # post)
                           @ [ips_footer @ [newline]], None)
                    \<and> ((\<forall>x \<in> set blocks. fits_record x) \<and> length data < 65535 \<longrightarrow>
                          to_ips M (Some b) =
                            (encode ips_header
                               @ concat (map block_record
                                   (pre @ (ips_bogo_address - 1, b # data) # post))
                               @ encode ips_footer, None))
                    \<and> (\<not> ((\<forall>x \<in> set blocks. fits_record x) \<and> length data < 65535) \<longrightarrow>
                          (\<exists>out. to_ips M (Some b) = (out, Some OverflowError))))
              \<and> (\<not> is_byte b \<longrightarrow> ips_sanitize_changes M (Some b) = Inl OverflowError)
              \<and> ips_sanitize_changes M None = Inl (PatchValueError Bogobyte_not_provided)
              \<and> to_ips M None = ([], Some (PatchValueError Bogobyte_not_provided))
              \<and> to_ipst M None = ([], Some (PatchValueError Bogobyte_not_provided))"
    apply (rule exI[of _ pre], rule exI[of _ post])
    using sp nb yes nby e no by blast
qed

lemma example_sentinel_blocks:
  "blockify example_sentinel = Inr [(0x454f44, [3]), (0x454f46, [9, 8]), (0x500000, [1])]"
  by (simp add: example_sentinel_def blockify_def sorted_items_def bytearray_append_def is_byte_def)

lemma example_sentinel_sanitized:
  "ips_sanitize_changes example_sentinel (Some 0)
     = Inr [(0x454f44, [3]), (0x500000, [1]), (0x454f45, [0, 9, 8])]"
  by code_simp

lemma example_sentinel_text:
  "to_ipst example_sentinel (Some 0)
     = ([''PATCH'' @ [newline], ''454F44:0001:03'' @ [newline], ''454F45:0003:000908'' @ [newline],
         ''500000:0001:01'' @ [newline], ''EOF'' @ [newline]], None)"
  by (simp add: to_ipst_def example_sentinel_sanitized sorted_items_def ipst_record_def
      format_X_def zfill_def hex_digit_def replicate_numeral ips_header_def ips_footer_def)

lemma example_sentinel_binary:
  "to_ips example_sentinel (Some 0)
     = (encode ''PATCH'' @ [0x45, 0x4f, 0x44, 0, 1, 3] @ [0x45, 0x4f, 0x45, 0, 3, 0, 9, 8]
          @ [0x50, 0, 0, 0, 1, 1] @ encode ''EOF'', None)"
  by code_simp

theorem sentinel_block_moved_or_refused_witness:
  "(\<exists>pre post.
      [(0x454f44, [3]), (0x454f46, [9, 8]), (0x500000, [1])] = pre @ (0x454f46, [9, 8]) # post
      \<and> ips_sanitize_changes example_sentinel (Some 0) = Inr (pre @ post @ [(0x454f45, [0, 9, 8])])
      \<and> to_ipst example_sentinel (Some 0) =
           ([ips_header @ [newline]]
              @ map (\<lambda>x. block_line x @ [newline]) (pre @ (0x454f45, [0, 9, 8]) # post)
              @ [ips_footer @ [newline]], None)
      \<and> to_ips example_sentinel (Some 0) =
           (encode ips_header @ concat (map block_record (pre @ (0x454f45, [0, 9, 8]) # post))
              @ encode ips_footer, None))
   \<and> to_ips example_sentinel None = ([], Some (PatchValueError Bogobyte_not_provided))
   \<and> to_ipst example_sentinel None = ([], Some (PatchValueError Bogobyte_not_provided))
   \<and> ips_sanitize_changes example_sentinel (Some 256) = Inl OverflowError
   \<and> ips_sanitize_changes example_changes None = Inr [(10, [0xAA, 0xBB]), (13, [0xCC])]"
proof -
  have d: "distinct (map fst example_sentinel)" by (simp add: example_sentinel_def)
  have b: "\<forall>v \<in> snd ` set example_sentinel. is_byte v"
    by (simp add: example_sentinel_def is_byte_def)
  have m: "map_of [(0x454f44, [3]), (0x454f46, [9, 8 :: int]), (0x500000, [1])] ips_bogo_address
             = Some [9, 8]"
    by (simp add: ips_bogo_address_def)
  have z: "is_byte 0" by (simp add: is_byte_def)
  have f: "(\<forall>x \<in> set [(0x454f44, [3]), (0x454f46, [9, 8 :: int]), (0x500000, [1])]. fits_record x)
             \<and> length [9, 8 :: int] < 65535"
    by (simp add: fits_record_def)
  from sentinel_block_moved_or_refused [OF d b example_sentinel_blocks, of "[9, 8]" 0 None] m
  obtain pre post where
    p: "[(0x454f44, [3]), (0x454f46, [9, 8]), (0x500000, [1])] = pre @ (ips_bogo_address, [9, 8]) # post"
    and y: "is_byte 0 \<longrightarrow>
              ips_sanitize_changes example_sentinel (Some 0)
                = Inr (pre @ post @ [(ips_bogo_address - 1, [0, 9, 8])])
              \<and> to_ipst example_sentinel (Some 0) =
                  ([ips_header @ [newline]]
                     @ map (\<lambda>x. block_line x @ [newline]) (pre @ (ips_bogo_address - 1, [0, 9, 8]) # post)
                     @ [ips_footer @ [newline]], None)
              \<and> ((\<forall>x \<in> set [(0x454f44, [3]), (0x454f46, [9, 8]), (0x500000, [1])]. fits_record x)
                    \<and> length [9, 8 :: int] < 65535 \<longrightarrow>
                    to_ips example_sentinel (Some 0) =
                      (encode ips_header
                         @ concat (map block_record (pre @ (ips_bogo_address - 1, [0, 9, 8]) # post))
                         @ encode ips_footer, None))"
    and n: "to_ips example_sentinel None = ([], Some (PatchValueError Bogobyte_not_provided))"
      "to_ipst example_sentinel None = ([], Some (PatchValueError Bogobyte_not_provided))"
    by blast
  have d2: "distinct (map fst example_sentinel)" by (rule d)
  have w: "\<not> is_byte 256" by (simp add: is_byte_def)
  from sentinel_block_moved_or_refused [OF d b example_sentinel_blocks, of "[9, 8]" 256 None] m w
  have o: "ips_sanitize_changes example_sentinel (Some 256) = Inl OverflowError" by blast
  have d3: "distinct (map fst example_changes)" by (simp add: example_changes_def)
  have b3: "\<forall>v \<in> snd ` set example_changes. is_byte v"
    by (simp add: example_changes_def is_byte_def)
  have bl3: "blockify example_changes = Inr [(10, [0xAA, 0xBB]), (13, [0xCC])]"
    by (rule blockify_example)
  have m3: "map_of [(10, [0xAA, 0xBB :: int]), (13, [0xCC])] ips_bogo_address = None"
    by (simp add: ips_bogo_address_def)
  from sentinel_block_moved_or_refused [OF d3 b3 bl3, of "[]" 0 None] m3
  have q: "ips_sanitize_changes example_changes None = Inr [(10, [0xAA, 0xBB]), (13, [0xCC])]"
    by blast
  have "[(0x454f44, [3]), (0x454f46, [9, 8]), (0x500000, [1])]
          = pre @ (ips_bogo_address, [9, 8]) # post
      \<and> ips_sanitize_changes example_sentinel (Some 0)
          = Inr (pre @ post @ [(ips_bogo_address - 1, [0, 9, 8])])
      \<and> to_ipst example_sentinel (Some 0) =
           ([ips_header @ [newline]]
              @ map (\<lambda>x. block_line x @ [newline]) (pre @ (ips_bogo_address - 1, [0, 9, 8]) # post)
              @ [ips_footer @ [newline]], None)
      \<and> to_ips example_sentinel (Some 0) =
           (encode ips_header
              @ concat (map block_record (pre @ (ips_bogo_address - 1, [0, 9, 8]) # post))
              @ encode ips_footer, None)"
    using p y z f by blast
  then have "\<exists>pre post.
      [(0x454f44, [3]), (0x454f46, [9, 8]), (0x500000, [1])]
          = pre @ (ips_bogo_address, [9, 8]) # post
      \<and> ips_sanitize_changes example_sentinel (Some 0)
          = Inr (pre @ post @ [(ips_bogo_address - 1, [0, 9, 8])])
      \<and> to_ipst example_sentinel (Some 0) =
           ([ips_header @ [newline]]
              @ map (\<lambda>x. block_line x @ [newline]) (pre @ (ips_bogo_address - 1, [0, 9, 8]) # post)
              @ [ips_footer @ [newline]], None)
      \<and> to_ips example_sentinel (Some 0) =
           (encode ips_header
              @ concat (map block_record (pre @ (ips_bogo_address - 1, [0, 9, 8]) # post))
              @ encode ips_footer, None)"
    by (intro exI)
  then have "\<exists>pre post.
      [(0x454f44, [3]), (0x454f46, [9, 8]), (0x500000, [1])] = pre @ (0x454f46, [9, 8]) # post
      \<and> ips_sanitize_changes example_sentinel (Some 0) = Inr (pre @ post @ [(0x454f45, [0, 9, 8])])
      \<and> to_ipst example_sentinel (Some 0) =
           ([ips_header @ [newline]]
              @ map (\<lambda>x. block_line x @ [newline]) (pre @ (0x454f45, [0, 9, 8]) # post)
              @ [ips_footer @ [newline]], None)
      \<and> to_ips example_sentinel (Some 0) =
           (encode ips_header @ concat (map block_record (pre @ (0x454f45, [0, 9, 8]) # post))
              @ encode ips_footer, None)"
    by (simp add: ips_bogo_address_def)
  then show ?thesis using n o q by (intro conjI)
qed

text \<open>
  Claim C2 as stated fails in the binary writer for a block of 65535 bytes at the
  reserved address: behind the bogo byte it has 65536 bytes, its length does not fit two
  bytes, and the file ends inside its record with \<open>OverflowError\<close>.
\<close>

theorem sentinel_block_overflow_counterexample:
  "blockify (cells 0x454f46 (replicate 65535 1)) = Inr [(0x454f46, replicate 65535 1)]
   \<and> to_ips (cells 0x454f46 (replicate 65535 1)) (Some 0)
       = (encode ''PATCH'' @ [0x45, 0x4f, 0x45], Some OverflowError)"
proof -
  have ne: "replicate 65535 (1 :: int) \<noteq> []" by simp
  have bs: "\<forall>v \<in> set (replicate 65535 (1 :: int)). is_byte v" by (simp add: is_byte_def)
  have bl: "blockify (cells 0x454f46 (replicate 65535 1)) = Inr [(0x454f46, replicate 65535 1)]"
    by (rule blockify_single[OF ne bs])
  have san: "ips_sanitize_changes (cells 0x454f46 (replicate 65535 1)) (Some 0)
               = Inr [(0x454f45, 0 # replicate 65535 1)]"
    using bl by (simp add: ips_sanitize_changes_def ips_bogo_address_def to_bytes_def)
  have u: "\<not> fits_record (0x454f45, 0 # replicate 65535 1)" by (simp add: fits_record_def)
  have s: "sorted_items [(0x454f45 :: int, 0 # replicate 65535 (1 :: int))]
             = [] @ (0x454f45, 0 # replicate 65535 1) # []"
    by (simp add: sorted_items_def)
  have na: "\<not> all_identical (0 # replicate 65535 (1 :: int))" by (simp add: all_identical_def)
  have "to_ips (cells 0x454f46 (replicate 65535 1)) (Some 0)
       = (encode ips_header @ concat (map block_record [])
            @ cut_record (0x454f45, 0 # replicate 65535 1), Some OverflowError)"
    by (rule to_ips_cut[OF san s _ u]) simp
  then have "to_ips (cells 0x454f46 (replicate 65535 1)) (Some 0)
       = (encode ''PATCH'' @ [0x45, 0x4f, 0x45], Some OverflowError)"
    using na by (simp add: cut_record_def big_endian3_def ips_header_def)
  then show ?thesis using bl by simp
qed

subsection \<open>Reading the text format\<close>


text \<open>
  What the reader does on a line: a four-part line whose value is above \<open>0xFF\<close> is
  refused with the line number when its run length is positive, and read as no change
  at all when its run length is zero or negative; a line with neither three nor four
  parts is a format error with the line number.
\<close>

lemma rle_loop_wide:
  "v > 0xFF \<Longrightarrow> is \<noteq> [] \<Longrightarrow>
     rle_loop n offset v is changes = Inl (PatchValueError (RLE_value_wont_fit n v))"
  by (cases "is") simp_all

lemma rle_loop_empty: "rle_loop n offset v [] changes = Inr changes"
  by simp

lemma ipst_line_rle_wide:
  assumes "split_on CHR '':'' line = [p0, p1, p2, p3]"
    and "py_int 16 p0 = Inr offset" "py_int 16 p1 = Inr sz" "py_int 16 p2 = Inr rle_size"
    and "py_int 16 p3 = Inr v"
  shows "v > 0xFF \<Longrightarrow> rle_size > 0 \<Longrightarrow>
           ipst_line n line changes = Inl (PatchValueError (RLE_value_wont_fit n v))"
    and "rle_size \<le> 0 \<Longrightarrow> ipst_line n line changes = Inr changes"
proof -
  assume "v > 0xFF" "rle_size > 0"
  then have "[0..<nat rle_size] \<noteq> []" by simp
  from rle_loop_wide[OF \<open>v > 0xFF\<close> this]
  show "ipst_line n line changes = Inl (PatchValueError (RLE_value_wont_fit n v))"
    using assms by (simp add: ipst_line_def)
next
  assume "rle_size \<le> 0"
  then show "ipst_line n line changes = Inr changes"
    using assms by (simp add: ipst_line_def)
qed

lemma ipst_line_shape:
  assumes "length (split_on CHR '':'' line) \<noteq> 3" "length (split_on CHR '':'' line) \<noteq> 4"
  shows "ipst_line n line changes = Inl (PatchFormatError (IPST_format_error n))"
proof -
  have "\<And>a b c. split_on CHR '':'' line \<noteq> [a, b, c]" using assms(1) by auto
  moreover have "\<And>a b c d. split_on CHR '':'' line \<noteq> [a, b, c, d]" using assms(2) by auto
  ultimately show ?thesis
    by (auto simp: ipst_line_def split: list.splits)
qed

text \<open>
  Claim C5 at concrete files.  A run-length line with the value \<open>0x100\<close> and the run
  length 0 is accepted, and the patch read is empty; with the run length 1 the same line
  is refused.  The line number reported is the position among the lines that are not
  comments: behind two comment lines the fourth line of the file is reported as line 2,
  for a value that is too wide and for a malformed line alike.
\<close>

theorem from_ipst_wide_value_accepted:
  "from_ipst [''PATCH'' @ [newline], ''000000:0000:0000:100'' @ [newline], ''EOF'' @ [newline]]
     = Inr []
   \<and> from_ipst [''PATCH'' @ [newline], ''000000:0000:0001:100'' @ [newline], ''EOF'' @ [newline]]
     = Inl (PatchValueError (RLE_value_wont_fit 2 256))
   \<and> from_ipst [''PATCH'' @ [newline], ''# comment'' @ [newline], ''# comment'' @ [newline],
        ''000000:0000:0001:100'' @ [newline], ''EOF'' @ [newline]]
     = Inl (PatchValueError (RLE_value_wont_fit 2 256))
   \<and> from_ipst [''PATCH'' @ [newline], ''# comment'' @ [newline], ''bad line'' @ [newline]]
     = Inl (PatchFormatError (IPST_format_error 2))"
  by code_simp

subsection \<open>Writing and reading the binary format\<close>


lemma from_bytes_be2: "0 \<le> x \<Longrightarrow> x < 65536 \<Longrightarrow> from_bytes (big_endian2 x) = x"
  by (simp add: from_bytes_def big_endian2_def)

lemma from_bytes_be3: "0 \<le> x \<Longrightarrow> x < 16777216 \<Longrightarrow> from_bytes (big_endian3 x) = x"
proof -
  assume a: "0 \<le> x" "x < 16777216"
  have 1: "x div 65536 mod 256 = x div 65536" using a by simp
  have "x div 256 div 256 = x div 65536" by (simp add: zdiv_zmult2_eq[symmetric])
  then have 2: "x div 256 mod 256 + x div 65536 * 256 = x div 256"
    using div_mult_mod_eq[of "x div 256" 256] by (simp add: algebra_simps)
  have 3: "x mod 256 + x div 256 * 256 = x" by simp
  have "from_bytes (big_endian3 x) = (x div 65536 * 256 + x div 256 mod 256) * 256 + x mod 256"
    by (simp add: from_bytes_def big_endian3_def 1)
  also have "\<dots> = x div 256 * 256 + x mod 256" using 2 by (simp add: algebra_simps)
  also have "\<dots> = x" by simp
  finally show ?thesis .
qed


lemma from_bytes_footer: "from_bytes (encode ips_footer) = ips_bogo_address"
  by (simp add: from_bytes_def encode_def ips_footer_def ips_bogo_address_def)

lemma be3_not_footer:
  assumes "0 \<le> x" "x < 16777216" "x \<noteq> ips_bogo_address"
  shows "big_endian3 x \<noteq> encode ips_footer"
proof
  assume "big_endian3 x = encode ips_footer"
  then have "from_bytes (big_endian3 x) = from_bytes (encode ips_footer)" by simp
  then show False using assms by (simp add: from_bytes_be3 from_bytes_footer)
qed

lemma length_be3: "length (big_endian3 x) = 3" by (simp add: big_endian3_def)
lemma length_be2: "length (big_endian2 x) = 2" by (simp add: big_endian2_def)

lemma enumerate_replicate: "enumerate m (replicate n v) = map (\<lambda>i. (i, v)) [m..<m + n]"
  by (induction n arbitrary: m) (simp_all add: upt_rec)

lemma store_run_replicate: "store_run k (int n) v ch = store_block k (replicate n v) ch"
  by (simp add: store_run_def store_block_def enumerate_replicate fold_map comp_def)

lemma all_identical_replicate:
  "all_identical d \<Longrightarrow> d = replicate (length d) (hd d)"
  by (simp add: all_identical_def replicate_length_same)


lemma from_ips_loop_footer: "from_ips_loop ch (encode ips_footer) = Inr ch"
  by (subst from_ips_loop.simps) (simp add: encode_def ips_footer_def)

lemma drop_5_as_2_3: "drop 5 xs = drop 2 (drop 3 xs)" by simp

lemma drop_7_as_2_5: "drop 7 xs = drop 2 (drop 5 xs)" by simp

lemma from_ips_loop_literal:
  assumes k: "0 \<le> k" "k < 16777216" "k \<noteq> ips_bogo_address"
    and d: "d \<noteq> []" "length d < 65536"
  shows "from_ips_loop ch (literal_record k d @ rest) = from_ips_loop (store_block k d ch) rest"
proof -
  let ?f = "big_endian3 k @ big_endian2 (int (length d)) @ d @ rest"
  have f: "literal_record k d @ rest = ?f" by (simp add: literal_record_def)
  have t3: "take 3 ?f = big_endian3 k" by (simp add: length_be3)
  have d3: "drop 3 ?f = big_endian2 (int (length d)) @ d @ rest" by (simp add: length_be3)
  have t2: "take 2 (drop 3 ?f) = big_endian2 (int (length d))" unfolding d3 by (simp add: length_be2)
  have d5: "drop 5 ?f = d @ rest"
  proof -
    have "drop 5 ?f = drop 2 (drop 3 ?f)" by (rule drop_5_as_2_3)
    then show ?thesis unfolding d3 by (simp add: length_be2)
  qed
  have sz: "from_bytes (take 2 (drop 3 ?f)) = int (length d)"
    unfolding t2 using d(2) by (simp add: from_bytes_be2)
  have nf: "take 3 ?f \<noteq> encode ips_footer" unfolding t3 by (rule be3_not_footer[OF k])
  have pos: "0 < int (length d)" using d(1) by simp
  show ?thesis
    unfolding f
    by (subst from_ips_loop.simps) (simp only: nf sz pos d5 t3 from_bytes_be3[OF k(1,2)] if_False if_True nat_int take_all_iff append_eq_conv_conj, simp add: be3_not_footer[OF k])
qed

lemma from_ips_loop_rle:
  assumes k: "0 \<le> k" "k < 16777216" "k \<noteq> ips_bogo_address"
    and n: "n < 65536"
  shows "from_ips_loop ch (rle_record k n v @ rest) = from_ips_loop (store_run k (int n) v ch) rest"
proof -
  let ?f = "big_endian3 k @ [0, 0] @ big_endian2 (int n) @ [v] @ rest"
  have f: "rle_record k n v @ rest = ?f" by (simp add: rle_record_def)
  have t3: "take 3 ?f = big_endian3 k" by (simp add: length_be3)
  have d3: "drop 3 ?f = [0, 0] @ big_endian2 (int n) @ [v] @ rest" by (simp add: length_be3)
  have t2: "take 2 (drop 3 ?f) = [0, 0]" unfolding d3 by simp
  have d5: "drop 5 ?f = big_endian2 (int n) @ [v] @ rest"
  proof -
    have "drop 5 ?f = drop 2 (drop 3 ?f)" by (rule drop_5_as_2_3)
    then show ?thesis unfolding d3 by simp
  qed
  have d7: "drop 7 ?f = v # rest"
  proof -
    have "drop 7 ?f = drop 2 (drop 5 ?f)" by (rule drop_7_as_2_5)
    then show ?thesis unfolding d5 by (simp add: length_be2)
  qed
  have t25: "take 2 (drop 5 ?f) = big_endian2 (int n)" unfolding d5 by (simp add: length_be2)
  have sz: "from_bytes (take 2 (drop 3 ?f)) = 0" unfolding t2 by (simp add: from_bytes_def)
  have rs: "from_bytes (take 2 (drop 5 ?f)) = int n" unfolding t25 using n by (simp add: from_bytes_be2)
  have nf: "take 3 ?f \<noteq> encode ips_footer" unfolding t3 by (rule be3_not_footer[OF k])
  show ?thesis
    unfolding f
    by (subst from_ips_loop.simps) (simp only: nf sz rs d7 t3 from_bytes_be3[OF k(1,2)] if_False list.case, simp add: be3_not_footer[OF k])
qed


lemma from_ips_loop_block:
  assumes "fits_record (k, d)" "k \<noteq> ips_bogo_address" "d \<noteq> []"
  shows "from_ips_loop ch (block_record (k, d) @ rest) = from_ips_loop (store_block k d ch) rest"
proof -
  have k: "0 \<le> k" "k < 16777216" and l: "length d < 65536"
    using assms(1) by (simp_all add: fits_record_def)
  show ?thesis
  proof (cases "3 < length d \<and> all_identical d")
    case True
    then have "d = replicate (length d) (hd d)" by (simp add: all_identical_replicate)
    then have "store_run k (int (length d)) (hd d) ch = store_block k d ch"
      using store_run_replicate[of k "length d" "hd d" ch] by simp
    then show ?thesis
      using True from_ips_loop_rle[OF k assms(2) l, of ch "hd d" rest]
      by (simp add: block_record_def)
  next
    case False
    then show ?thesis
      using from_ips_loop_literal[OF k assms(2,3) l, of ch rest]
      by (auto simp: block_record_def)
  qed
qed

lemma from_ips_loop_blocks:
  assumes "\<forall>b \<in> set bl. fits_record b \<and> fst b \<noteq> ips_bogo_address \<and> snd b \<noteq> []"
  shows "from_ips_loop ch (concat (map block_record bl) @ encode ips_footer)
           = Inr (fold (\<lambda>(start, data) ch. store_block start data ch) bl ch)"
  using assms
proof (induction bl arbitrary: ch)
  case Nil
  then show ?case by (simp add: from_ips_loop_footer)
next
  case (Cons b bl)
  obtain k d where b: "b = (k, d)" by (cases b)
  have 1: "fits_record (k, d)" "k \<noteq> ips_bogo_address" "d \<noteq> []" using Cons.prems b by auto
  have 2: "\<forall>b \<in> set bl. fits_record b \<and> fst b \<noteq> ips_bogo_address \<and> snd b \<noteq> []"
    using Cons.prems by simp
  show ?case
    using from_ips_loop_block[OF 1, of ch "concat (map block_record bl) @ encode ips_footer"]
      Cons.IH[OF 2, of "store_block k d ch"] b
    by simp
qed

lemma from_ips_header:
  "from_ips (encode ips_header @ rest) = from_ips_loop [] rest"
  by (simp add: from_ips_def encode_def ips_header_def)

lemma blockify_cells:
  assumes "distinct (map fst M)" "\<forall>v \<in> snd ` set M. is_byte v" "blockify M = Inr bl"
    "(s, d) \<in> set bl" "i < length d"
  shows "(s + int i, d ! i) \<in> set M"
proof -
  from blockify_expand[OF assms(1,2)] assms(3) have
    ex: "concat (map (\<lambda>(s, d). cells s d) bl) = sorted_items M" by auto
  have "(s + int i, d ! i) \<in> set (cells s d)"
    using assms(5) cells_nth[OF assms(5), of s] length_cells[of s d] by (metis nth_mem)
  then have "(s + int i, d ! i) \<in> set (concat (map (\<lambda>(s, d). cells s d) bl))"
    using assms(4) by auto
  then show ?thesis by (simp add: ex sorted_items_def)
qed

lemma from_blocks_blockify:
  assumes "distinct (map fst M)" "\<forall>v \<in> snd ` set M. is_byte v" "blockify M = Inr bl"
  shows "map_of (from_blocks bl) = map_of M"
proof -
  from blockify_expand[OF assms(1,2)] assms(3) have
    ex: "concat (map (\<lambda>(s, d). cells s d) bl) = sorted_items M" by auto
  have dk: "distinct (map fst (sorted_items M))" using assms(1) by (simp add: distinct_keys_sorted_items)
  have "map_of (from_blocks bl) = map_of (rev (sorted_items M))"
    by (simp add: from_blocks_cells ex map_of_fold_update)
  also have "\<dots> = map_of M" using dk assms(1) by (simp add: map_of_rev_distinct map_of_sorted_items)
  finally show ?thesis .
qed

lemma sorted_items_blockify:
  assumes "distinct (map fst M)" "\<forall>v \<in> snd ` set M. is_byte v" "blockify M = Inr bl"
  shows "sorted_items bl = bl"
proof -
  from blockify_expand[OF assms(1,2)] assms(3) have "sorted_wrt (<) (map fst bl)" by auto
  then have "sorted (map fst bl)" using strict_sorted_iff by blast
  then show ?thesis unfolding sorted_items_def by (rule sort_key_id_if_sorted)
qed

text \<open>
  Claim C1, amended.  For every dict of bytes whose offsets take three bytes, are not the
  reserved address \<open>0x454F46\<close> and include no 65536 consecutive offsets, \<open>to_ips\<close>
  writes the whole file, whatever the bogo byte, and \<open>from_ips\<close> reads from it a dict
  equal to the one written.
\<close>

theorem ips_roundtrip:
  assumes "distinct (map fst M)" and "\<forall>v \<in> snd ` set M. is_byte v"
    and "ips_offsets M" and "no_long_run M"
  shows "\<exists>out M'. to_ips M bogobyte = (out, None) \<and> from_ips out = Inr M' \<and> map_of M' = map_of M"
proof -
  from blockify_expand[OF assms(1,2)] obtain bl where bl: "blockify M = Inr bl" by blast
  have start: "s \<in> fst ` set M" "d \<noteq> []" if "(s, d) \<in> set bl" for s d
    using blockify_starts(1,3)[OF assms(1,2) bl that] .
  have nb: "map_of bl ips_bogo_address = None"
  proof (cases "map_of bl ips_bogo_address")
    case None then show ?thesis .
  next
    case (Some d)
    then have "(ips_bogo_address, d) \<in> set bl" by (rule map_of_SomeD)
    from start(1)[OF this] assms(3) show ?thesis by (auto simp: ips_offsets_def)
  qed
  have san: "ips_sanitize_changes M bogobyte = Inr bl"
    using bl nb by (simp add: ips_sanitize_changes_def)
  have ok: "fits_record b \<and> fst b \<noteq> ips_bogo_address \<and> snd b \<noteq> []" if "b \<in> set bl" for b
  proof -
    obtain s d where b: "b = (s, d)" by (cases b)
    have m: "(s, d) \<in> set bl" using that b by simp
    have k: "0 \<le> s \<and> s < 2 ^ 24 \<and> s \<noteq> ips_bogo_address"
      using start(1)[OF m] assms(3) by (auto simp: ips_offsets_def)
    have "length d < 65536"
    proof (rule ccontr)
      assume "\<not> length d < 65536"
      then have long: "65536 \<le> length d" by simp
      from assms(4) obtain i where i: "i < 65536" "s + int i \<notin> fst ` set M"
        by (auto simp: no_long_run_def)
      then have "i < length d" using long by simp
      from blockify_cells[OF assms(1,2) bl m this] i(2) show False by force
    qed
    then show ?thesis using k start(2)[OF m] b by (simp add: fits_record_def)
  qed
  have sb: "sorted_items bl = bl" by (rule sorted_items_blockify[OF assms(1,2) bl])
  have fit: "\<forall>b \<in> set (sorted_items bl). fits_record b" using ok sb by simp
  have out: "to_ips M bogobyte =
      (encode ips_header @ concat (map block_record bl) @ encode ips_footer, None)"
    using ips_write_blocks_form[OF fit] san sb by (simp add: to_ips_def)
  have "from_ips (encode ips_header @ concat (map block_record bl) @ encode ips_footer)
          = Inr (from_blocks bl)"
    using from_ips_loop_blocks[of bl "[]"] ok by (simp add: from_ips_header from_blocks_def)
  then show ?thesis using out from_blocks_blockify[OF assms(1,2) bl] by blast
qed


lemma short_no_long_run:
  assumes "length M < 65536"
  shows "no_long_run M"
  unfolding no_long_run_def
proof (rule allI, rule ccontr)
  fix k
  assume "\<not> (\<exists>i<65536. k + int i \<notin> fst ` set M)"
  then have sub: "(\<lambda>i. k + int i) ` {..<65536} \<subseteq> fst ` set M" by auto
  have "inj_on (\<lambda>i. k + int i) {..<65536}" by (simp add: inj_on_def)
  then have "card ((\<lambda>i. k + int i) ` {..<65536}) = 65536" by (simp add: card_image)
  moreover have "card ((\<lambda>i. k + int i) ` {..<65536}) \<le> card (fst ` set M)"
    using sub by (intro card_mono) auto
  moreover have "card (fst ` set M) \<le> length M"
    by (metis card_image_le card_length le_trans List.finite_set)
  ultimately show False using assms by simp
qed

theorem ips_roundtrip_witness:
  "\<exists>out M'. to_ips example_changes None = (out, None) \<and> from_ips out = Inr M'
      \<and> map_of M' = map_of example_changes"
proof -
  have d: "distinct (map fst example_changes)" by (simp add: example_changes_def)
  have b: "\<forall>v \<in> snd ` set example_changes. is_byte v"
    by (simp add: example_changes_def is_byte_def)
  have o: "ips_offsets example_changes"
    by (simp add: example_changes_def ips_offsets_def ips_bogo_address_def)
  have n: "no_long_run example_changes"
    by (rule short_no_long_run) (simp add: example_changes_def)
  show ?thesis by (rule ips_roundtrip [OF d b o n])
qed

text \<open>
  Claim C1 as stated fails in both formats.  The binary writer stops with
  \<open>OverflowError\<close> at the offset \<open>0x1000000\<close>, which does not fit three bytes.  The
  text writer prints the offset 16 in hexadecimal, \<open>000010\<close>, and the reader takes the
  offset of a literal line for a decimal number, 10.
\<close>

theorem roundtrip_counterexample:
  "to_ips [(0x1000000, 0)] None = (encode ''PATCH'', Some OverflowError)
   \<and> to_ipst [(16, 0)] None
        = ([''PATCH'' @ [newline], ''000010:0001:00'' @ [newline], ''EOF'' @ [newline]], None)
   \<and> from_ipst [''PATCH'' @ [newline], ''000010:0001:00'' @ [newline], ''EOF'' @ [newline]]
        = Inr [(10, 0)]"
  by code_simp

section \<open>Properties of tables\<close>


text \<open>
  Claim C7, amended.  The length of a table is the length of its index.  The size of an
  element is the explicit size times the unit when a size other than 0 is given; else
  the size of the registered structure when the type of the elements is registered; else
  the stride times the unit when the index is an \<open>Index\<close>; else there is no size, and
  every access to an element fails.
\<close>

theorem table_length_and_item_size:
  "table_len t = len_index (index t)
   \<and> (\<forall>s. item_size t = Some s \<and> s \<noteq> 0 \<longrightarrow> isz_bits registry t = Inr (s * units t))
   \<and> (\<forall>fs. (item_size t = None \<or> item_size t = Some 0) \<and> registry (typename t) = Some fs
          \<longrightarrow> isz_bits registry t = struct_size fs)
   \<and> (\<forall>offset count stride.
          (item_size t = None \<or> item_size t = Some 0) \<and> registry (typename t) = None
          \<and> index t = Index offset count stride
          \<longrightarrow> isz_bits registry t = Inr (stride * units t))
   \<and> (\<forall>xs. (item_size t = None \<or> item_size t = Some 0) \<and> registry (typename t) = None
          \<and> index t = Offsets xs
          \<longrightarrow> isz_bits registry t = Inl ValueError
              \<and> (\<forall>i. \<exists>e. table_getitem registry t i = Inl e))"
proof (intro conjI allI impI)
  show "table_len t = len_index (index t)" by (simp add: table_len_def)
next
  fix s assume "item_size t = Some s \<and> s \<noteq> 0"
  then show "isz_bits registry t = Inr (s * units t)" by (simp add: isz_bits_def)
next
  fix fs assume "(item_size t = None \<or> item_size t = Some 0) \<and> registry (typename t) = Some fs"
  then show "isz_bits registry t = struct_size fs" by (auto simp: isz_bits_def)
next
  fix offset count stride
  assume "(item_size t = None \<or> item_size t = Some 0) \<and> registry (typename t) = None
          \<and> index t = Index offset count stride"
  then show "isz_bits registry t = Inr (stride * units t)" by (auto simp: isz_bits_def)
next
  fix xs
  assume a: "(item_size t = None \<or> item_size t = Some 0) \<and> registry (typename t) = None
          \<and> index t = Offsets xs"
  then show z: "isz_bits registry t = Inl ValueError" by (auto simp: isz_bits_def)
  fix i
  show "\<exists>e. table_getitem registry t i = Inl e"
    using z by (auto simp: table_getitem_def subview_def split: sum.splits)
qed

theorem table_length_and_item_size_witness:
  "table_len example_table = Inr 4
   \<and> isz_bits Map.empty example_table = Inr 24
   \<and> isz_bits [''uint'' \<mapsto> [(Fixed 2, 8), (Fixed 4, 1)]] (example_table\<lparr>item_size := None\<rparr>) = Inr 20
   \<and> isz_bits Map.empty (example_table\<lparr>item_size := None\<rparr>) = Inr 16
   \<and> isz_bits Map.empty (example_table\<lparr>item_size := None, index := Offsets [0, 8]\<rparr>) = Inl ValueError
   \<and> (\<exists>e. table_getitem Map.empty (example_table\<lparr>item_size := None, index := Offsets [0, 8]\<rparr>) 1 = Inl e)"
  using table_length_and_item_size [of example_table Map.empty]
    table_length_and_item_size [of "example_table\<lparr>item_size := None\<rparr>" "[''uint'' \<mapsto> [(Fixed 2, 8), (Fixed 4, 1)]]"]
    table_length_and_item_size [of "example_table\<lparr>item_size := None\<rparr>" Map.empty]
    table_length_and_item_size [of "example_table\<lparr>item_size := None, index := Offsets [0, 8]\<rparr>" Map.empty]
  by (simp add: example_table_def len_index_def sys_maxsize_def)

text \<open>
  Claim C7 as stated fails for the explicit size 0: the test \<open>if self.size\<close> takes it
  for no size, and the size of an element is the stride times the unit, 16, not 0.
\<close>

theorem explicit_zero_size_counterexample:
  "isz_bits Map.empty (example_table\<lparr>item_size := Some 0\<rparr>) = Inr 16"
  by (simp add: example_table_def isz_bits_def)


text \<open>
  Claim C9, amended.  A table has a length when its index is a list, or an \<open>Index\<close>
  whose count is not negative and not above \<open>sys.maxsize\<close>; otherwise \<open>len\<close> raises and
  so does every access.  An index at or above the length of the table is refused with
  \<open>IndexError\<close>.  With an \<open>Index\<close> that has a length, a negative \<open>i\<close> is not refused:
  the offset is \<open>offset + i * stride\<close>, before the first element when the stride is
  positive, and the table asks the view for the slice that starts there.  With a list of
  offsets, a negative \<open>i\<close> counts from the end of the list, and \<open>i\<close> below minus the
  length is refused with \<open>IndexError\<close>.
\<close>

theorem table_getitem_bounds:
  "(\<forall>n. table_len t = Inr n \<and> i \<ge> n \<longrightarrow> table_getitem registry t i = Inl IndexError)
   \<and> (\<forall>e. table_len t = Inl e \<longrightarrow> table_getitem registry t i = Inl e)
   \<and> (\<forall>offset count stride.
          index t = Index offset count stride \<longrightarrow>
            table_len t = (if count < 0 then Inl ValueError
                           else if count > sys_maxsize then Inl OverflowError
                           else Inr count))
   \<and> (\<forall>offset count stride isz.
          index t = Index offset count stride \<and> 0 \<le> count \<and> count \<le> sys_maxsize \<and> i < 0
          \<and> isz_bits registry t = Inr isz
          \<longrightarrow> index_getitem (index t) i = Inr (offset + i * stride)
              \<and> table_getitem registry t i =
                    Inr (element_at registry t ((offset + i * stride) * units t)
                           ((offset + i * stride) * units t + isz))
              \<and> (0 < stride \<longrightarrow> offset + i * stride < offset))
   \<and> (\<forall>xs. index t = Offsets xs \<and> i < 0 \<longrightarrow>
          (i < - int (length xs) \<longrightarrow>
              index_getitem (index t) i = Inl IndexError
              \<and> table_getitem registry t i = Inl IndexError)
          \<and> (- int (length xs) \<le> i \<longrightarrow>
              index_getitem (index t) i = Inr (xs ! nat (int (length xs) + i))))"
proof (intro conjI allI impI)
  fix n assume "table_len t = Inr n \<and> i \<ge> n"
  then show "table_getitem registry t i = Inl IndexError" by (simp add: table_getitem_def)
next
  fix e assume "table_len t = Inl e"
  then show "table_getitem registry t i = Inl e" by (simp add: table_getitem_def)
next
  fix offset count stride assume "index t = Index offset count stride"
  then show "table_len t = (if count < 0 then Inl ValueError
                           else if count > sys_maxsize then Inl OverflowError
                           else Inr count)"
    by (simp add: table_len_def len_index_def)
next
  fix offset count stride isz
  assume a: "index t = Index offset count stride \<and> 0 \<le> count \<and> count \<le> sys_maxsize \<and> i < 0
          \<and> isz_bits registry t = Inr isz"
  then show g: "index_getitem (index t) i = Inr (offset + i * stride)"
    by (simp add: index_getitem_def)
  have l: "table_len t = Inr count" using a by (simp add: table_len_def len_index_def)
  have "\<not> i \<ge> count" using a by simp
  then show "table_getitem registry t i =
                    Inr (element_at registry t ((offset + i * stride) * units t)
                           ((offset + i * stride) * units t + isz))"
    using a g l by (simp add: table_getitem_def subview_def element_at_def split: option.splits)
  assume "0 < stride"
  then have "i * stride < 0" using a by (simp add: mult_neg_pos)
  then show "offset + i * stride < offset" by simp
next
  fix xs assume a: "index t = Offsets xs \<and> i < 0"
  {
    assume b: "i < - int (length xs)"
    show g: "index_getitem (index t) i = Inl IndexError" using a b by (simp add: index_getitem_def)
    have "table_len t = Inr (int (length xs))" using a by (simp add: table_len_def len_index_def)
    then show "table_getitem registry t i = Inl IndexError"
      using a g by (simp add: table_getitem_def subview_def)
  }
  {
    assume "- int (length xs) \<le> i"
    then show "index_getitem (index t) i = Inr (xs ! nat (int (length xs) + i))"
      using a by (simp add: index_getitem_def)
  }
qed

theorem table_getitem_bounds_witness:
  "table_getitem Map.empty example_table 4 = Inl IndexError
   \<and> table_getitem Map.empty example_table (- 1) = Inr (ValueAt ''uint'' 0x7F0 0x808)
   \<and> index_getitem (Index 0x100 4 2) (- 1) = Inr 0xFE
   \<and> table_getitem Map.empty example_list_table (- 3) = Inl IndexError
   \<and> index_getitem (Offsets [10, 20]) (- 1) = Inr 20
   \<and> table_getitem Map.empty (example_table\<lparr>index := Index 0 (2 ^ 63) 1\<rparr>) (- 1) = Inl OverflowError"
  using table_getitem_bounds [of example_table 4 Map.empty]
    table_getitem_bounds [of "example_table\<lparr>index := Index 0 (2 ^ 63) 1\<rparr>" "- 1" Map.empty]
    table_getitem_bounds [of example_table "- 1" Map.empty]
    table_getitem_bounds [of example_list_table "- 3" Map.empty]
    table_getitem_bounds [of example_list_table "- 1" Map.empty]
  by (simp add: example_table_def example_list_table_def table_len_def len_index_def sys_maxsize_def
      isz_bits_def element_at_def)

text \<open>
  Claim C9 as stated fails for a table over a list of two offsets: the index \<open>-3\<close> is
  refused, and the index \<open>-1\<close> is the last offset, not one before the first.
\<close>

theorem negative_index_of_list_counterexample:
  "table_len example_list_table = Inr 2
   \<and> table_getitem Map.empty example_list_table (- 3) = Inl IndexError
   \<and> index_getitem (index example_list_table) (- 1) = Inr 20"
  by (simp add: example_list_table_def table_len_def len_index_def table_getitem_def
      subview_def index_getitem_def isz_bits_def)

section \<open>Properties of string fields\<close>


lemma set_str_same:
  "get_str c view_bytes = Inr v \<Longrightarrow> set_str c view_bytes v = Inr None"
  by (simp add: set_str_def)

lemma set_str_overlay:
  "get_str c view_bytes = Inr current \<Longrightarrow> v \<noteq> current \<Longrightarrow> encode_str c v = Inr data \<Longrightarrow>
     set_str c view_bytes v = Inr (Some (data @ drop (length data) view_bytes))"
  by (simp add: set_str_def)

text \<open>
  Claim C6 at concrete fields of four ASCII bytes.  Writing \<open>XY\<close> over \<open>ABCD\<close>
  assigns \<open>XYCD\<close>: the two bytes behind the value keep their old content and are not
  padded with spaces.  Writing \<open>ABC\<close> over \<open>AB\<close> and two spaces assigns \<open>ABC\<close> and a
  space, the old last byte.  Writing \<open>ABCDE\<close> raises nothing in the method, which
  assigns five bytes to the view of four.  Writing the string that the field already
  decodes to assigns nothing.
\<close>

theorem set_str_keeps_stale_bytes:
  "set_str ascii (encode ''ABCD'') ''XY'' = Inr (Some (encode ''XYCD''))
   \<and> set_str ascii (encode ''AB  '') ''ABC'' = Inr (Some (encode ''ABC ''))
   \<and> set_str ascii (encode ''AB  '') ''ABCDE'' = Inr (Some (encode ''ABCDE''))
   \<and> set_str ascii (encode ''AB  '') ''AB  '' = Inr None"
  by code_simp

section \<open>Properties of the constructor\<close>






end
